theory Spec2Isabelle
  imports Main "HOL-Library.Word" "HOL-Library.Multiset" "HOL-Library.Monad_Syntax"
begin

unbundle bit_operations_syntax

section \<open>Multi-attribute linear-hashed files: the storage engine of ass2\<close>

text \<open>
  The development embeds \<^verbatim>\<open>src/ass2/reln.c\<close> and \<^verbatim>\<open>src/ass2/query.c\<close>.
  All C counters (\<^verbatim>\<open>Count\<close>, \<^verbatim>\<open>Offset\<close>, \<^verbatim>\<open>Bits\<close>, \<^verbatim>\<open>PageID\<close>) are
  unsigned 32-bit integers. A file is the list of its pages. Every operation is a function
  into \<open>option\<close>: \<open>None\<close> stands for a run that does not return normally (a loop that
  never ends, a failed \<^verbatim>\<open>assert\<close>, a page read from beyond the end of a file, an
  array read out of bounds); the only error the engine itself reports, NoSpace, is the
  ordinary return value \<open>NO_PAGE\<close>.
\<close>

type_synonym Bits = "32 word"
type_synonym Count = "32 word"
type_synonym Offset = "32 word"
type_synonym PageID = "32 word"
type_synonym Tuple = string

definition NO_PAGE :: PageID where
  "NO_PAGE = 0xFFFFFFFF"

definition PAGESIZE :: nat where
  "PAGESIZE = 1024"

subsection \<open>Bit utilities\<close>

text \<open>
  Modelled from the spec: \<^verbatim>\<open>bits.c\<close> is not among the sources. Section 4.1 of the
  specification: bit \<open>i\<close> of \<open>v\<close>; \<open>v\<close> with bit \<open>i\<close> forced on; the low \<open>k\<close> bits
  of \<open>v\<close>, by the mask \<open>(1 << k) - 1\<close>, and 0 for \<open>k = 0\<close>.
\<close>

definition bitIsSet :: "Bits \<Rightarrow> nat \<Rightarrow> bool" where
  "bitIsSet v i = bit v i"

definition setBit :: "Bits \<Rightarrow> nat \<Rightarrow> Bits" where
  "setBit v i = v OR push_bit i 1"

definition getLower :: "Bits \<Rightarrow> nat \<Rightarrow> Bits" where
  "getLower v k = (if k = 0 then 0 else v AND (push_bit k 1 - 1))"

subsection \<open>Pages\<close>

text \<open>
  Modelled from the spec: \<^verbatim>\<open>page.c\<close> is not among the sources. Section 3 and 4.3 of
  the specification: a page is a block of \<open>PAGESIZE\<close> bytes made of a header (the three
  32-bit fields \<open>ntuples\<close>, \<open>free\<close>, \<open>ovflow\<close>) and a data area holding the packed run
  of the NUL-terminated tuples. The model keeps the overflow link and the run of tuples;
  \<open>ntuples\<close> is the length of the run and \<open>free\<close> the sum of the serialized lengths
  (the specification's invariant on \<open>free\<close>). A tuple may be appended iff its serialized
  length is at most the remaining free bytes.
\<close>

record Page =
  pageOvflow :: PageID
  pageData :: "Tuple list"

definition hdr_size :: nat where
  "hdr_size = 12"

definition dataSize :: nat where
  "dataSize = PAGESIZE - hdr_size"

definition tupLength :: "Tuple \<Rightarrow> nat" where
  "tupLength t = length t + 1"

definition newPage :: Page where
  "newPage = \<lparr>pageOvflow = NO_PAGE, pageData = []\<rparr>"

definition pageFree :: "Page \<Rightarrow> nat" where
  "pageFree pg = sum_list (map tupLength (pageData pg))"

definition pageFreeSpace :: "Page \<Rightarrow> nat" where
  "pageFreeSpace pg = dataSize - pageFree pg"

definition pageNTuples :: "Page \<Rightarrow> nat" where
  "pageNTuples pg = length (pageData pg)"

definition pageSetOvflow :: "Page \<Rightarrow> PageID \<Rightarrow> Page" where
  "pageSetOvflow pg pid = pg\<lparr>pageOvflow := pid\<rparr>"

definition addToPage :: "Page \<Rightarrow> Tuple \<Rightarrow> Page option" where
  "addToPage pg t =
     (if tupLength t \<le> pageFreeSpace pg then Some (pg\<lparr>pageData := pageData pg @ [t]\<rparr>)
      else None)"

text \<open>
  Modelled from the spec: \<open>getPage\<close> and \<open>putPage\<close> seek to \<open>id * PAGESIZE\<close> and read
  or write one page; \<open>addPage\<close> appends a fresh empty page and returns its id. A page id
  beyond the end of the file yields no page. Page ids are 32 bits wide and \<open>NO_PAGE\<close> is
  the all-ones value, so a file holds at most \<open>2^32 - 1\<close> addressable pages; appending to
  a file of that size is the I/O failure that ends the run.
\<close>

definition getPage :: "Page list \<Rightarrow> PageID \<Rightarrow> Page option" where
  "getPage f pid = (if unat pid < length f then Some (f ! unat pid) else None)"

definition putPage :: "Page list \<Rightarrow> PageID \<Rightarrow> Page \<Rightarrow> Page list option" where
  "putPage f pid pg = (if unat pid < length f then Some (f[unat pid := pg]) else None)"

definition addPage :: "Page list \<Rightarrow> (Page list \<times> PageID) option" where
  "addPage f =
     (if length f < unat NO_PAGE then Some (f @ [newPage], word_of_nat (length f)) else None)"

subsection \<open>Relations\<close>

text \<open>
  \<^verbatim>\<open>struct RelnRep\<close> of \<^verbatim>\<open>reln.c\<close>. The two page files are part of the state:
  \<open>data\<close> and \<open>ovflow\<close> are the contents of the files behind the two handles. The
  choice vector is the list of its \<open>(att, bit)\<close> items.
\<close>

record Reln =
  nattrs :: Count
  depth :: Count
  sp :: Offset
  npages :: Count
  ntups :: Count
  c :: Count
  insertion :: Count
  splitting :: bool
  cv :: "(nat \<times> nat) list"
  data :: "Page list"
  ovflow :: "Page list"

text \<open>
  \<^verbatim>\<open>newRelation\<close>: the descriptor, then \<open>npages\<close> calls of \<open>addPage\<close> on the empty data
  file. The choice vector arrives parsed (\<^verbatim>\<open>parseChVec\<close> is not among the sources).
  The division \<^verbatim>\<open>1024/(10*nattrs)\<close> is unsigned 32-bit; a zero divisor ends the run.
\<close>

fun addPages :: "nat \<Rightarrow> Page list \<Rightarrow> Page list option" where
  "addPages 0 f = Some f"
| "addPages (Suc n) f = do { (f', _) \<leftarrow> addPage f; addPages n f' }"

definition newRelation :: "Count \<Rightarrow> Count \<Rightarrow> Count \<Rightarrow> (nat \<times> nat) list \<Rightarrow> Reln option" where
  "newRelation na np d chvec =
     (if 10 * na = 0 then None
      else do {
        f \<leftarrow> addPages (unat np) [];
        Some \<lparr>nattrs = na, depth = d, sp = 0, npages = np, ntups = 0,
              c = 1024 div (10 * na), insertion = 0, splitting = False,
              cv = chvec, data = f, ovflow = []\<rparr>
      })"

subsection \<open>Insertion\<close>

text \<open>
  The bucket of a composite hash (\<^verbatim>\<open>addToRelation\<close>, lines 150-151; the same two lines
  occur in \<^verbatim>\<open>startQuery\<close> and \<^verbatim>\<open>getNextTuple\<close>).
\<close>

definition bucketOf :: "Reln \<Rightarrow> Bits \<Rightarrow> PageID" where
  "bucketOf r h =
     (let p = getLower h (unat (depth r))
      in if p < sp r then getLower h (unat (depth r) + 1) else p)"

text \<open>The counters move only outside a split (lines 156-159, 172-175, 191-194, 210-213).\<close>

definition countInsert :: "Reln \<Rightarrow> Reln" where
  "countInsert r =
     (if \<not> splitting r then r\<lparr>ntups := ntups r + 1, insertion := insertion r + 1\<rparr> else r)"

text \<open>
  The scan of the overflow chain (lines 183-197). The result is \<open>Inl\<close> of the updated
  overflow file when a page with room was found, and \<open>Inr\<close> of the last page visited
  when the chain is exhausted.
\<close>

partial_function (option) scanChain ::
  "Page list \<Rightarrow> Tuple \<Rightarrow> PageID \<Rightarrow> (PageID \<times> Page) option
     \<Rightarrow> (Page list + (PageID \<times> Page) option) option" where
  "scanChain ovf t ovp prev =
     (if ovp = NO_PAGE then Some (Inr prev)
      else do {
        ovpg \<leftarrow> getPage ovf ovp;
        case addToPage ovpg t of
          None \<Rightarrow> scanChain ovf t (pageOvflow ovpg) (Some (ovp, ovpg))
        | Some ovpg' \<Rightarrow> do { ovf' \<leftarrow> putPage ovf ovp ovpg'; Some (Inl ovf') }
      })"

declare scanChain.simps [code]

text \<open>
  Lines 148-215 of \<^verbatim>\<open>addToRelation\<close>: the placement of the tuple. \<^verbatim>\<open>tupleHash\<close> is not
  among the sources; it reads the tuple, \<open>nattrs\<close> and the choice vector only, which no
  operation changes, and is the parameter \<open>th\<close>. The two branches taken when the primary
  page is full are definitions of their own: \<open>placeFirstOvflow\<close> is lines 164-176 (the
  bucket has no overflow page yet), \<open>placeInChain\<close> is lines 178-214.
\<close>

definition placeFirstOvflow :: "Reln \<Rightarrow> PageID \<Rightarrow> Page \<Rightarrow> Tuple \<Rightarrow> (Reln \<times> PageID) option" where
  "placeFirstOvflow r p pg t =
     do {
       (ov1, newp) \<leftarrow> addPage (ovflow r);
       d1 \<leftarrow> putPage (data r) p (pageSetOvflow pg newp);
       newpg \<leftarrow> getPage ov1 newp;
       case addToPage newpg t of
         None \<Rightarrow> Some (r\<lparr>data := d1, ovflow := ov1\<rparr>, NO_PAGE)
       | Some newpg' \<Rightarrow> do {
           ov2 \<leftarrow> putPage ov1 newp newpg';
           Some (countInsert (r\<lparr>data := d1, ovflow := ov2\<rparr>), p)
         }
     }"

definition placeInChain :: "Reln \<Rightarrow> PageID \<Rightarrow> Page \<Rightarrow> Tuple \<Rightarrow> (Reln \<times> PageID) option" where
  "placeInChain r p pg t =
     do {
       found \<leftarrow> scanChain (ovflow r) t (pageOvflow pg) None;
       case found of
         Inl ov1 \<Rightarrow> Some (countInsert (r\<lparr>ovflow := ov1\<rparr>), p)
       | Inr None \<Rightarrow> None
       | Inr (Some (prevp, prevpg)) \<Rightarrow> do {
           (ov1, newp) \<leftarrow> addPage (ovflow r);
           newpg \<leftarrow> getPage ov1 newp;
           case addToPage newpg t of
             None \<Rightarrow> Some (r\<lparr>ovflow := ov1\<rparr>, NO_PAGE)
           | Some newpg' \<Rightarrow> do {
               ov2 \<leftarrow> putPage ov1 newp newpg';
               ov3 \<leftarrow> putPage ov2 prevp (pageSetOvflow prevpg newp);
               Some (countInsert (r\<lparr>ovflow := ov3\<rparr>), p)
             }
         }
     }"

definition placeTuple :: "(Tuple \<Rightarrow> Bits) \<Rightarrow> Reln \<Rightarrow> Tuple \<Rightarrow> (Reln \<times> PageID) option" where
  "placeTuple th r t =
     (let p = bucketOf r (th t) in
      do {
        pg \<leftarrow> getPage (data r) p;
        case addToPage pg t of
          Some pg' \<Rightarrow> do {
            d1 \<leftarrow> putPage (data r) p pg';
            Some (countInsert (r\<lparr>data := d1\<rparr>), p)
          }
        | None \<Rightarrow>
            if pageOvflow pg = NO_PAGE then placeFirstOvflow r p pg t
            else placeInChain r p pg t
      })"

subsection \<open>Splitting\<close>

text \<open>
  \<^verbatim>\<open>splitSp\<close> calls \<^verbatim>\<open>addToRelation\<close> for every tuple of the split bucket, and
  \<^verbatim>\<open>addToRelation\<close> calls \<^verbatim>\<open>splitSp\<close>. The recursion is tied by a bound on the depth of
  nested calls: \<open>splitWith ins\<close> is the body of \<^verbatim>\<open>splitSp\<close> with \<open>ins\<close> for the calls of
  \<^verbatim>\<open>addToRelation\<close>, whose results it ignores.
\<close>

fun reinsert ::
  "(Reln \<Rightarrow> Tuple \<Rightarrow> (Reln \<times> PageID) option) \<Rightarrow> Reln \<Rightarrow> Tuple list \<Rightarrow> Reln option" where
  "reinsert ins r [] = Some r"
| "reinsert ins r (t # ts) = do { (r', _) \<leftarrow> ins r t; reinsert ins r' ts }"

partial_function (option) splitOvflow ::
  "(Reln \<Rightarrow> Tuple \<Rightarrow> (Reln \<times> PageID) option) \<Rightarrow> Reln \<Rightarrow> Page \<Rightarrow> Reln option" where
  "splitOvflow ins r currPage =
     (if pageOvflow currPage = NO_PAGE then Some r
      else do {
        nextPage \<leftarrow> getPage (ovflow r) (pageOvflow currPage);
        ov1 \<leftarrow> putPage (ovflow r) (pageOvflow currPage)
                 (pageSetOvflow newPage (pageOvflow nextPage));
        r1 \<leftarrow> reinsert ins (r\<lparr>ovflow := ov1\<rparr>) (pageData nextPage);
        splitOvflow ins r1 nextPage
      })"

declare splitOvflow.simps [code]

definition splitWith ::
  "(Reln \<Rightarrow> Tuple \<Rightarrow> (Reln \<times> PageID) option) \<Rightarrow> Reln \<Rightarrow> Reln option" where
  "splitWith ins r =
     do {
       (d1, _) \<leftarrow> addPage (data r);
       currPage \<leftarrow> getPage d1 (sp r);
       d2 \<leftarrow> putPage d1 (sp r) (pageSetOvflow newPage (pageOvflow currPage));
       r1 \<leftarrow> reinsert ins (r\<lparr>data := d2, npages := npages r + 1, sp := sp r + 1\<rparr>)
                (pageData currPage);
       r2 \<leftarrow> splitOvflow ins r1 currPage;
       Some (if sp r2 = push_bit (unat (depth r2)) 1
             then r2\<lparr>depth := depth r2 + 1, sp := 0\<rparr> else r2)
     }"

fun addToRelation :: "nat \<Rightarrow> (Tuple \<Rightarrow> Bits) \<Rightarrow> Reln \<Rightarrow> Tuple \<Rightarrow> (Reln \<times> PageID) option" where
  "addToRelation 0 th r t = None"
| "addToRelation (Suc n) th r t =
     do {
       r1 \<leftarrow> (if insertion r = c r
              then do {
                r2 \<leftarrow> splitWith (addToRelation n th) (r\<lparr>insertion := 0, splitting := True\<rparr>);
                Some (r2\<lparr>splitting := False\<rparr>)
              }
              else Some r);
       placeTuple th r1 t
     }"

definition splitSp :: "nat \<Rightarrow> (Tuple \<Rightarrow> Bits) \<Rightarrow> Reln \<Rightarrow> Reln option" where
  "splitSp n th r = splitWith (addToRelation n th) r"

subsection \<open>Tuples\<close>

text \<open>
  Modelled from the spec: \<^verbatim>\<open>tuple.c\<close> is not among the sources. A tuple is serialized
  as its comma-separated fields; \<open>tupleVals\<close> cuts it at the commas. Section 4.5.3: a
  tuple matches a pattern iff, for every attribute whose pattern field is not the wildcard
  \<open>?\<close>, the field of the tuple equals the field of the pattern.
\<close>

fun tupleVals :: "Tuple \<Rightarrow> string list" where
  "tupleVals [] = [[]]"
| "tupleVals (x # xs) =
     (if x = CHR '','' then [] # tupleVals xs
      else (x # hd (tupleVals xs)) # tl (tupleVals xs))"

definition field :: "string list \<Rightarrow> nat \<Rightarrow> string option" where
  "field vs i = (if i < length vs then Some (vs ! i) else None)"

definition tupleMatch :: "Reln \<Rightarrow> Tuple \<Rightarrow> Tuple \<Rightarrow> bool" where
  "tupleMatch r pat t =
     (\<forall>i \<in> set [0 ..< unat (nattrs r)].
        field (tupleVals pat) i = Some ''?'' \<or> field (tupleVals pat) i = field (tupleVals t) i)"

subsection \<open>Queries\<close>

text \<open>
  \<^verbatim>\<open>struct QueryRep\<close> of \<^verbatim>\<open>query.c\<close>. The cursor \<^verbatim>\<open>curtup\<close> always stands at tuple
  number \<open>nTupleScanned\<close> of the current page and is not a field of its own; \<open>starBits\<close>
  holds the \<open>nstars\<close> entries that were written. The field \<open>fetched\<close> is the log of the
  page ids passed to \<^verbatim>\<open>getPage\<close> on the primary data file, in order.
\<close>

record Query =
  query :: Tuple
  rel :: Reln
  known :: Bits
  unknown :: Bits
  nstars :: nat
  starBits :: "nat list"
  bitSeq :: Bits
  bitSeqMax :: Bits
  curpage :: Page
  nTupleScanned :: nat
  fetched :: "PageID list"

text \<open>
  Lines 64-74 of \<^verbatim>\<open>startQuery\<close>: one step per index of the choice vector. Reading the
  choice vector or the attribute values out of bounds does not return.
\<close>

fun formKnown ::
  "(string \<Rightarrow> Bits) \<Rightarrow> (nat \<times> nat) list \<Rightarrow> string list \<Rightarrow> nat list \<Rightarrow> Bits \<times> nat list
     \<Rightarrow> (Bits \<times> nat list) option" where
  "formKnown hash_any chv vals [] (k, stars) = Some (k, stars)"
| "formKnown hash_any chv vals (i # is) (k, stars) =
     (if i < length chv \<and> fst (chv ! i) < length vals then
        (if vals ! fst (chv ! i) \<noteq> ''?'' then
           formKnown hash_any chv vals is
             (if bitIsSet (hash_any (vals ! fst (chv ! i))) (snd (chv ! i)) then setBit k i else k,
              stars)
         else formKnown hash_any chv vals is (k, stars @ [i]))
      else None)"

text \<open>Lines 80-83: one bit of \<open>bitSeqMax\<close> for each star.\<close>

definition formMax :: "nat \<Rightarrow> Bits" where
  "formMax n = fold (\<lambda>i m. setBit m i) [0 ..< n] 0"

text \<open>Lines 85-90 and 156-161: the counter \<open>bitSeq\<close> scattered over the star positions.\<close>

definition formUnknown :: "nat \<Rightarrow> nat list \<Rightarrow> Bits \<Rightarrow> Bits" where
  "formUnknown n stars bs =
     fold (\<lambda>i u. if bitIsSet bs i then setBit u (stars ! i) else u) [0 ..< n] 0"

definition startQuery :: "(string \<Rightarrow> Bits) \<Rightarrow> Reln \<Rightarrow> Tuple \<Rightarrow> Query option" where
  "startQuery hash_any r q =
     (let vals = tupleVals q in
      if length vals \<noteq> unat (nattrs r) then None
      else do {
        (k, stars) \<leftarrow> formKnown hash_any (cv r) vals [0 ..< unat (depth r + 1)] (0, []);
        let u = formUnknown (length stars) stars 0;
        let p = bucketOf r (u OR k);
        pg \<leftarrow> getPage (data r) p;
        Some \<lparr>query = q, rel = r, known = k, unknown = u, nstars = length stars,
              starBits = stars, bitSeq = 0, bitSeqMax = formMax (length stars),
              curpage = pg, nTupleScanned = 0, fetched = [p]\<rparr>
      })"

text \<open>The scan of the tuples of the current page (lines 112-120 and 133-141).\<close>

function scanPage :: "Query \<Rightarrow> Query \<times> Tuple option" where
  "scanPage q =
     (if nTupleScanned q < pageNTuples (curpage q) then
        (if tupleMatch (rel q) (query q) (pageData (curpage q) ! nTupleScanned q)
         then (q\<lparr>nTupleScanned := nTupleScanned q + 1\<rparr>,
               Some (pageData (curpage q) ! nTupleScanned q))
         else scanPage (q\<lparr>nTupleScanned := nTupleScanned q + 1\<rparr>))
      else (q, None))"
  by pat_completeness auto
termination
  by (relation "measure (\<lambda>q. pageNTuples (curpage q) - nTupleScanned q)") auto

declare scanPage.simps [simp del]

text \<open>The walk along the overflow pages of the current bucket (lines 125-142).\<close>

partial_function (option) scanOvflowPages :: "Query \<Rightarrow> (Query \<times> Tuple option) option" where
  "scanOvflowPages q =
     (if pageOvflow (curpage q) = NO_PAGE then Some (q, None)
      else do {
        pg \<leftarrow> getPage (ovflow (rel q)) (pageOvflow (curpage q));
        case scanPage (q\<lparr>curpage := pg, nTupleScanned := 0\<rparr>) of
          (q1, Some t) \<Rightarrow> Some (q1, Some t)
        | (q1, None) \<Rightarrow> scanOvflowPages q1
      })"

declare scanOvflowPages.simps [code]

text \<open>
  The primary page to fetch for a composite hash, if any (lines 167-183): the normal
  rule when the last star is not at position \<open>depth\<close>; otherwise the low \<open>depth + 1\<close>
  bits, and no page when that bucket does not exist.
\<close>

definition nextPageId :: "Reln \<Rightarrow> nat \<Rightarrow> Bits \<Rightarrow> PageID option" where
  "nextPageId r lastStar malHash =
     (if lastStar \<noteq> unat (depth r) then Some (bucketOf r malHash)
      else if getLower malHash (unat (depth r) + 1) < npages r
        then Some (getLower malHash (unat (depth r) + 1))
      else None)"

text \<open>
  The move to the next bucket (lines 154-189). With no star at all the index
  \<open>nstars - 1\<close> would be read out of bounds.
\<close>

definition nextBucket :: "Query \<Rightarrow> Query option" where
  "nextBucket q =
     (let bs = bitSeq q + 1;
          u = formUnknown (nstars q) (starBits q) bs;
          malHash = u OR known q;
          q1 = q\<lparr>bitSeq := bs, unknown := u\<rparr>
      in
      if nstars q = 0 \<or> length (starBits q) < nstars q then None
      else case nextPageId (rel q) (starBits q ! (nstars q - 1)) malHash of
        Some p \<Rightarrow> do {
          pg \<leftarrow> getPage (data (rel q)) p;
          Some (q1\<lparr>curpage := pg, nTupleScanned := 0, fetched := fetched q @ [p]\<rparr>)
        }
      | None \<Rightarrow> Some q1)"

partial_function (option) getNextTuple :: "Query \<Rightarrow> (Query \<times> Tuple option) option" where
  "getNextTuple q =
     (case scanPage q of
        (q1, Some t) \<Rightarrow> Some (q1, Some t)
      | (q1, None) \<Rightarrow> do {
          (q2, res) \<leftarrow> scanOvflowPages q1;
          case res of
            Some t \<Rightarrow> Some (q2, Some t)
          | None \<Rightarrow>
              if bitSeq q2 = bitSeqMax q2 then Some (q2, None)
              else do { q3 \<leftarrow> nextBucket q2; getNextTuple q3 }
        })"

declare getNextTuple.simps [code]

text \<open>
  The caller's loop: \<^verbatim>\<open>getNextTuple\<close> until it returns \<^verbatim>\<open>NULL\<close>. The result is
  the list of the tuples returned and the final state of the query.
\<close>

partial_function (option) runQuery :: "Query \<Rightarrow> (Tuple list \<times> Query) option" where
  "runQuery q =
     do {
       (q1, res) \<leftarrow> getNextTuple q;
       case res of
         None \<Rightarrow> Some ([], q1)
       | Some t \<Rightarrow> do { (ts, q2) \<leftarrow> runQuery q1; Some (t # ts, q2) }
     }"

declare runQuery.simps [code]

text \<open>The pattern of \<open>n\<close> wildcards.\<close>

fun wildcards :: "nat \<Rightarrow> Tuple" where
  "wildcards 0 = []"
| "wildcards (Suc 0) = ''?''"
| "wildcards (Suc (Suc n)) = ''?,'' @ wildcards (Suc n)"

text \<open>A run of insertions, each with the same bound on nested calls.\<close>

fun insertAll :: "nat \<Rightarrow> (Tuple \<Rightarrow> Bits) \<Rightarrow> Reln \<Rightarrow> Tuple list \<Rightarrow> (Reln \<times> PageID list) option" where
  "insertAll n th r [] = Some (r, [])"
| "insertAll n th r (t # ts) =
     do {
       (r1, p) \<leftarrow> addToRelation n th r t;
       (r2, ps) \<leftarrow> insertAll n th r1 ts;
       Some (r2, p # ps)
     }"

section \<open>Invariants\<close>

text \<open>\<open>preserves P ins\<close>: a successful call of \<open>ins\<close> keeps the property \<open>P\<close> of relations.\<close>

definition preserves ::
  "(Reln \<Rightarrow> bool) \<Rightarrow> (Reln \<Rightarrow> Tuple \<Rightarrow> (Reln \<times> PageID) option) \<Rightarrow> bool" where
  "preserves P ins \<longleftrightarrow> (\<forall>r t r' p. P r \<longrightarrow> ins r t = Some (r', p) \<longrightarrow> P r')"

text \<open>The fields that the placement of a tuple leaves alone.\<close>

definition sameCtl :: "Reln \<Rightarrow> Reln \<Rightarrow> bool" where
  "sameCtl r r' \<longleftrightarrow>
     length (data r') = length (data r) \<and> npages r' = npages r \<and> depth r' = depth r
     \<and> sp r' = sp r \<and> c r' = c r \<and> cv r' = cv r \<and> nattrs r' = nattrs r
     \<and> splitting r' = splitting r"

text \<open>
  Count consistency: the data file has \<open>npages\<close> pages and \<open>npages = 2^d + sp\<close>, as an
  equation between natural numbers (nothing wraps around).
\<close>

definition countInv :: "Reln \<Rightarrow> bool" where
  "countInv r \<longleftrightarrow>
     length (data r) = unat (npages r) \<and> unat (npages r) = 2 ^ unat (depth r) + unat (sp r)"

subsection \<open>A small relation\<close>

text \<open>
  A composite hash for concrete runs (the length of the tuple), a relation of 60
  attributes as \<open>newRelation\<close> creates it (\<open>c = 1\<close>: every insertion but the first
  splits), and the relation after the insertion of three tuples.
\<close>

definition exHash :: "Tuple \<Rightarrow> Bits" where
  "exHash t = word_of_nat (length t)"

definition exR0 :: Reln where
  "exR0 = \<lparr>nattrs = 60, depth = 0, sp = 0, npages = 1, ntups = 0, c = 1,
     insertion = 0, splitting = False, cv = [],
     data = [\<lparr>pageOvflow = NO_PAGE, pageData = []\<rparr>], ovflow = []\<rparr>"

definition exR3 :: Reln where
  "exR3 = \<lparr>nattrs = 60, depth = 1, sp = 1, npages = 3, ntups = 3, c = 1,
     insertion = 1, splitting = False, cv = [],
     data =
       [\<lparr>pageOvflow = NO_PAGE, pageData = []\<rparr>,
        \<lparr>pageOvflow = NO_PAGE, pageData = [''a'', ''c'']\<rparr>,
        \<lparr>pageOvflow = NO_PAGE, pageData = [''bb'']\<rparr>],
     ovflow = []\<rparr>"

text \<open>
  A tuple too long for any page, and the relation after the insertion of \<open>''a''\<close>, of
  the long tuple (which fails), of \<open>''bb''\<close> and of \<open>''c''\<close>.
\<close>

definition exBig :: Tuple where
  "exBig = replicate 1012 (CHR ''x'')"

definition exR4 :: Reln where
  "exR4 = \<lparr>nattrs = 60, depth = 1, sp = 1, npages = 3, ntups = 3, c = 1,
     insertion = 1, splitting = False, cv = [],
     data =
       [\<lparr>pageOvflow = 0, pageData = []\<rparr>,
        \<lparr>pageOvflow = NO_PAGE, pageData = [''a'', ''c'']\<rparr>,
        \<lparr>pageOvflow = NO_PAGE, pageData = [''bb'']\<rparr>],
     ovflow = [\<lparr>pageOvflow = NO_PAGE, pageData = []\<rparr>]\<rparr>"

subsection \<open>The split control\<close>

text \<open>
  At rest the capacity hint \<open>c\<close> is positive, at most \<open>c\<close> insertions were counted
  since the last split, and no split is under way. Inside a split the flag is set, the
  counter of insertions is zero and the number of tuples is the one before the split.
\<close>

definition ctlInv :: "Reln \<Rightarrow> bool" where
  "ctlInv r \<longleftrightarrow> 0 < c r \<and> insertion r \<le> c r \<and> \<not> splitting r"

definition inSplit :: "Count \<Rightarrow> Count \<Rightarrow> Reln \<Rightarrow> bool" where
  "inSplit k m r \<longleftrightarrow> splitting r \<and> insertion r = 0 \<and> c r = k \<and> ntups r = m"

text \<open>
  The counter of insertions after a run of top-level calls with the given results: a
  call that finds the counter at \<open>c\<close> splits and restarts it at zero (lines 141-146),
  and a call that does not return \<open>NO_PAGE\<close> adds one (lines 156-159, 172-175, 191-194,
  210-213).
\<close>

fun insertionAfter :: "Count \<Rightarrow> Count \<Rightarrow> PageID list \<Rightarrow> Count" where
  "insertionAfter k i [] = i"
| "insertionAfter k i (p # ps) =
     insertionAfter k ((if i = k then 0 else i) + (if p = NO_PAGE then 0 else 1)) ps"

subsection \<open>Queries\<close>

text \<open>\<open>n\<close> successive calls of \<^verbatim>\<open>getNextTuple\<close> on a query, results dropped.\<close>

fun callsOf :: "nat \<Rightarrow> Query \<Rightarrow> Query option" where
  "callsOf 0 q = Some q"
| "callsOf (Suc n) q = do { (q', _) \<leftarrow> getNextTuple q; callsOf n q' }"

text \<open>
  What a scan leaves alone: the compiled pattern (\<open>sameQuery\<close>) and, within one bucket,
  also the counter \<open>bitSeq\<close> and the log of fetches (\<open>sameBucket\<close>).
\<close>

definition sameQuery :: "Query \<Rightarrow> Query \<Rightarrow> bool" where
  "sameQuery q q' \<longleftrightarrow> rel q' = rel q \<and> query q' = query q \<and> known q' = known q
     \<and> nstars q' = nstars q \<and> starBits q' = starBits q \<and> bitSeqMax q' = bitSeqMax q"

definition sameBucket :: "Query \<Rightarrow> Query \<Rightarrow> bool" where
  "sameBucket q q' \<longleftrightarrow> sameQuery q q' \<and> bitSeq q' = bitSeq q \<and> unknown q' = unknown q
     \<and> fetched q' = fetched q"

text \<open>At most one fetch for each value of \<open>bitSeq\<close> so far.\<close>

definition fetchCount :: "Query \<Rightarrow> bool" where
  "fetchCount q \<longleftrightarrow> length (fetched q) \<le> unat (bitSeq q) + 1 \<and> bitSeq q \<le> bitSeqMax q
     \<and> bitSeqMax q = mask (nstars q)"

text \<open>
  The pages that a query has fetched when its counter \<open>bitSeq\<close> stands at \<open>b\<close>: the
  page of \<^verbatim>\<open>startQuery\<close> for the value 0, then for each value from 1 to \<open>b\<close>, in this
  order, the page of the move to that value, if it fetches one. \<open>fetchTrace\<close>: the log
  of the fetches of a query is this list.
\<close>

fun visited :: "Reln \<Rightarrow> Bits \<Rightarrow> nat \<Rightarrow> nat list \<Rightarrow> nat \<Rightarrow> PageID list" where
  "visited r k n stars 0 = [bucketOf r (formUnknown n stars 0 OR k)]"
| "visited r k n stars (Suc b) =
     visited r k n stars b @
       (case nextPageId r (stars ! (n - 1)) (formUnknown n stars (word_of_nat (Suc b)) OR k) of
          Some p \<Rightarrow> [p]
        | None \<Rightarrow> [])"

definition fetchTrace :: "Query \<Rightarrow> bool" where
  "fetchTrace q \<longleftrightarrow> fetchCount q
     \<and> fetched q = visited (rel q) (known q) (nstars q) (starBits q) (unat (bitSeq q))"

text \<open>
  The overflow links of a relation lead somewhere: the link of a primary page is
  \<open>NO_PAGE\<close> or the id of an overflow page, the link of an overflow page is \<open>NO_PAGE\<close> or
  the id of a later overflow page (\<^verbatim>\<open>addToRelation\<close> links a page to the page that
  \<^verbatim>\<open>addPage\<close> has just appended). \<open>progress\<close> is what is left to scan: the values of
  \<open>bitSeq\<close>, the pages of the current chain and the tuples of the current page; a call of
  \<^verbatim>\<open>getNextTuple\<close> that returns a tuple makes it smaller in the lexicographic order.
\<close>

definition linkOKp :: "Reln \<Rightarrow> Page \<Rightarrow> bool" where
  "linkOKp r pg \<longleftrightarrow> pageOvflow pg = NO_PAGE \<or> unat (pageOvflow pg) < length (ovflow r)"

definition linksOK :: "Reln \<Rightarrow> bool" where
  "linksOK r \<longleftrightarrow>
     (\<forall>pg \<in> set (data r). linkOKp r pg)
     \<and> (\<forall>i < length (ovflow r).
           pageOvflow (ovflow r ! i) = NO_PAGE
           \<or> (i < unat (pageOvflow (ovflow r ! i))
               \<and> unat (pageOvflow (ovflow r ! i)) < length (ovflow r)))"

definition linkMeasure :: "Reln \<Rightarrow> Page \<Rightarrow> nat" where
  "linkMeasure r pg =
     (if pageOvflow pg = NO_PAGE then 0 else length (ovflow r) - unat (pageOvflow pg))"

definition progress :: "Query \<Rightarrow> nat \<times> nat \<times> nat" where
  "progress q =
     (unat (bitSeqMax q) - unat (bitSeq q), linkMeasure (rel q) (curpage q),
      pageNTuples (curpage q) - nTupleScanned q)"

definition queryInv :: "Reln \<Rightarrow> Query \<Rightarrow> bool" where
  "queryInv r q \<longleftrightarrow> rel q = r \<and> fetchCount q \<and> nstars q \<le> length (starBits q)
     \<and> linkOKp r (curpage q)"

definition progLess :: "Query \<Rightarrow> Query \<Rightarrow> bool" where
  "progLess q' q \<longleftrightarrow>
     (progress q', progress q) \<in> less_than <*lex*> less_than <*lex*> less_than"

text \<open>
  A relation of two attributes with five buckets (\<open>d = 2\<close>, \<open>sp = 1\<close>) and one overflow
  page, whose tuples sit where the composite hash built from the lengths of the two
  attribute values sends them; the query \<open>a,?\<close> on it at its start, and the query
  \<open>?,?\<close> at its start and after seven calls of \<^verbatim>\<open>getNextTuple\<close>.
\<close>

definition exQR :: Reln where
  "exQR = \<lparr>nattrs = 2, depth = 2, sp = 1, npages = 5, ntups = 6, c = 51,
     insertion = 6, splitting = False, cv = [(0, 0), (1, 0), (0, 1)],
     data =
       [\<lparr>pageOvflow = NO_PAGE, pageData = [''dddd,yy'']\<rparr>,
        \<lparr>pageOvflow = 0, pageData = [''a,yy'']\<rparr>,
        \<lparr>pageOvflow = NO_PAGE, pageData = [''bb,x'']\<rparr>,
        \<lparr>pageOvflow = NO_PAGE, pageData = [''a,x'']\<rparr>,
        \<lparr>pageOvflow = NO_PAGE, pageData = [''bb,yy'']\<rparr>],
     ovflow = [\<lparr>pageOvflow = NO_PAGE, pageData = [''ccc,yy'']\<rparr>]\<rparr>"

definition exQa :: Query where
  "exQa = \<lparr>query = ''a,?'', rel = exQR, known = 1, unknown = 0, nstars = 1, starBits = [1],
     bitSeq = 0, bitSeqMax = 1, curpage = \<lparr>pageOvflow = 0, pageData = [''a,yy'']\<rparr>,
     nTupleScanned = 0, fetched = [1]\<rparr>"

definition exQ0 :: Query where
  "exQ0 = \<lparr>query = ''?,?'', rel = exQR, known = 0, unknown = 0, nstars = 3,
     starBits = [0, 1, 2], bitSeq = 0, bitSeqMax = 7,
     curpage = \<lparr>pageOvflow = NO_PAGE, pageData = [''dddd,yy'']\<rparr>,
     nTupleScanned = 0, fetched = [0]\<rparr>"

definition exQ7 :: Query where
  "exQ7 = \<lparr>query = ''?,?'', rel = exQR, known = 0, unknown = 7, nstars = 3,
     starBits = [0, 1, 2], bitSeq = 7, bitSeqMax = 7,
     curpage = \<lparr>pageOvflow = NO_PAGE, pageData = [''bb,yy'']\<rparr>,
     nTupleScanned = 1, fetched = [0, 1, 2, 3, 4]\<rparr>"

subsection \<open>Failed insertions\<close>






section \<open>Properties\<close>

subsection \<open>Pages and files\<close>

lemma unat_NO_PAGE: "unat NO_PAGE = 4294967295"
  by (simp add: NO_PAGE_def)

lemma getPage_Some: "getPage f p = Some pg \<longleftrightarrow> unat p < length f \<and> pg = f ! unat p"
  by (auto simp: getPage_def)

lemma putPage_Some: "putPage f p pg = Some f' \<longleftrightarrow> unat p < length f \<and> f' = f[unat p := pg]"
  by (auto simp: putPage_def)

lemma addPage_Some:
  "addPage f = Some (f', p) \<longleftrightarrow>
     length f < unat NO_PAGE \<and> f' = f @ [newPage] \<and> p = word_of_nat (length f)"
  by (auto simp: addPage_def)

lemma addPages_length: "addPages n f = Some f' \<Longrightarrow> length f' = length f + n"
  by (induction n arbitrary: f) (auto simp: bind_eq_Some_conv addPage_Some)

subsection \<open>32-bit arithmetic\<close>

lemma unat_succ: "unat (x :: 32 word) < 4294967295 \<Longrightarrow> unat (x + 1) = unat x + 1"
  by (simp add: unat_add_lem [THEN iffD1])

lemma two_pow_lt: "n < 32 \<Longrightarrow> (2::nat) ^ n < 4294967296"
  using power_strict_increasing [of n 32 "2::nat"] by simp

lemma unat_two_pow: "n < 32 \<Longrightarrow> unat ((2::32 word) ^ n) = 2 ^ n"
proof -
  assume a: "n < 32"
  have "(2::32 word) ^ n = word_of_nat (2 ^ n)" by simp
  then have "unat ((2::32 word) ^ n) = 2 ^ n mod 4294967296"
    by (simp only: unat_of_nat) simp
  with two_pow_lt [OF a] show ?thesis by simp
qed

lemma two_pow_bound: "(2::nat) ^ k < 4294967296 \<Longrightarrow> k < 32"
  using power_increasing [of 32 k "2::nat"] by (cases "k < 32") auto

subsection \<open>Properties kept by every insertion\<close>

lemma reinsert_preserves:
  "preserves P ins \<Longrightarrow> P r \<Longrightarrow> reinsert ins r ts = Some r' \<Longrightarrow> P r'"
proof (induction ts arbitrary: r)
  case Nil
  then show ?case by simp
next
  case (Cons t ts)
  from Cons.prems(3) obtain r1 p where
    a: "ins r t = Some (r1, p)" and b: "reinsert ins r1 ts = Some r'"
    by (auto simp: bind_eq_Some_conv)
  from Cons.prems(1,2) a have "P r1" unfolding preserves_def by blast
  with Cons.IH Cons.prems(1) b show ?case by blast
qed

lemmas splitOvflow_induct = splitOvflow.raw_induct [rotated 1, consumes 1, case_names step]

lemma splitOvflow_preserves:
  "splitOvflow ins r pg = Some r' \<Longrightarrow>
   preserves P ins \<longrightarrow> (\<forall>x ov. P x \<longrightarrow> P (x\<lparr>ovflow := ov\<rparr>)) \<longrightarrow> P r \<longrightarrow> P r'"
proof (induction rule: splitOvflow_induct)
  case (step splitOvflow ins r currPage r')
  show ?case
  proof (intro impI)
    assume pr: "preserves P ins" and fr: "\<forall>x ov. P x \<longrightarrow> P (x\<lparr>ovflow := ov\<rparr>)" and P: "P r"
    show "P r'"
    proof (cases "pageOvflow currPage = NO_PAGE")
      case True
      with step(2) P show ?thesis by simp
    next
      case False
      with step(2) obtain nextPage ov1 r1 where
        "reinsert ins (r\<lparr>ovflow := ov1\<rparr>) (pageData nextPage) = Some r1"
        "splitOvflow ins r1 nextPage = Some r'"
        by (auto simp: bind_eq_Some_conv)
      moreover from fr P have "P (r\<lparr>ovflow := ov1\<rparr>)" by blast
      ultimately show ?thesis using step(1) pr fr reinsert_preserves by blast
    qed
  qed
qed

lemma insertAll_preserves:
  "preserves P (addToRelation n th) \<Longrightarrow> P r \<Longrightarrow> insertAll n th r ts = Some (r', ps) \<Longrightarrow> P r'"
proof (induction ts arbitrary: r ps)
  case Nil
  then show ?case by simp
next
  case (Cons t ts)
  from Cons.prems(3) obtain r1 p ps' where
    a: "addToRelation n th r t = Some (r1, p)" and b: "insertAll n th r1 ts = Some (r', ps')"
    by (auto simp: bind_eq_Some_conv)
  from Cons.prems(1,2) a have "P r1" unfolding preserves_def by blast
  with Cons.IH Cons.prems(1) b show ?case by blast
qed

subsection \<open>The placement of a tuple changes the files and the two counters only\<close>

lemma countInsert_simps [simp]:
  "data (countInsert r) = data r" "ovflow (countInsert r) = ovflow r"
  "npages (countInsert r) = npages r" "depth (countInsert r) = depth r"
  "sp (countInsert r) = sp r" "c (countInsert r) = c r" "cv (countInsert r) = cv r"
  "nattrs (countInsert r) = nattrs r" "splitting (countInsert r) = splitting r"
  "ntups (countInsert r) = (if splitting r then ntups r else ntups r + 1)"
  "insertion (countInsert r) = (if splitting r then insertion r else insertion r + 1)"
  by (simp_all add: countInsert_def)

lemma placeFirstOvflow_fields:
  "placeFirstOvflow r p pg t = Some (r', p') \<Longrightarrow> sameCtl r r'"
  by (auto simp: placeFirstOvflow_def bind_eq_Some_conv putPage_Some sameCtl_def
      split: option.splits)

lemma placeInChain_cases:
  assumes "placeInChain r p pg t = Some res"
  obtains found where
    "scanChain (ovflow r) t (pageOvflow pg) None = Some found"
    "(case found of
         Inl ov1 \<Rightarrow> Some (countInsert (r\<lparr>ovflow := ov1\<rparr>), p)
       | Inr None \<Rightarrow> None
       | Inr (Some (prevp, prevpg)) \<Rightarrow> do {
           (ov1, newp) \<leftarrow> addPage (ovflow r);
           newpg \<leftarrow> getPage ov1 newp;
           case addToPage newpg t of
             None \<Rightarrow> Some (r\<lparr>ovflow := ov1\<rparr>, NO_PAGE)
           | Some newpg' \<Rightarrow> do {
               ov2 \<leftarrow> putPage ov1 newp newpg';
               ov3 \<leftarrow> putPage ov2 prevp (pageSetOvflow prevpg newp);
               Some (countInsert (r\<lparr>ovflow := ov3\<rparr>), p)
             }
         }) = Some res"
  using assms unfolding placeInChain_def by (auto simp: bind_eq_Some_conv)

lemma placeInChain_fields:
  assumes "placeInChain r p pg t = Some (r', p')"
  shows "sameCtl r r'"
  using assms
proof (cases rule: placeInChain_cases)
  case (1 found)
  show ?thesis
  proof (cases found)
    case (Inl ov1)
    with 1 show ?thesis by (auto simp: sameCtl_def)
  next
    case (Inr prev)
    show ?thesis
    proof (cases prev)
      case None
      with Inr 1 show ?thesis by simp
    next
      case (Some a)
      obtain prevp prevpg where "a = (prevp, prevpg)" by (cases a)
      with Some Inr 1 show ?thesis
        by (auto simp: bind_eq_Some_conv sameCtl_def split: option.splits)
    qed
  qed
qed

lemma placeTuple_fields:
  "placeTuple th r t = Some (r', p) \<Longrightarrow> sameCtl r r'"
  by (auto simp: placeTuple_def Let_def bind_eq_Some_conv putPage_Some
      split: option.splits if_splits dest: placeFirstOvflow_fields placeInChain_fields)
     (simp_all add: sameCtl_def)

lemma addToRelation_Suc_cases:
  assumes "addToRelation (Suc n) th r t = Some res"
  obtains (nosplit) "insertion r \<noteq> c r" "placeTuple th r t = Some res"
  | (split) r2 where "insertion r = c r"
      "splitWith (addToRelation n th) (r\<lparr>insertion := 0, splitting := True\<rparr>) = Some r2"
      "placeTuple th (r2\<lparr>splitting := False\<rparr>) t = Some res"
  using assms by (cases "insertion r = c r") (auto simp: bind_eq_Some_conv)

lemma splitWith_cases:
  assumes "splitWith ins r = Some r'"
  obtains d1 x currPage d2 r1 r2 where
    "addPage (data r) = Some (d1, x)"
    "getPage d1 (sp r) = Some currPage"
    "putPage d1 (sp r) (pageSetOvflow newPage (pageOvflow currPage)) = Some d2"
    "reinsert ins (r\<lparr>data := d2, npages := npages r + 1, sp := sp r + 1\<rparr>)
       (pageData currPage) = Some r1"
    "splitOvflow ins r1 currPage = Some r2"
    "r' = (if sp r2 = push_bit (unat (depth r2)) 1
           then r2\<lparr>depth := depth r2 + 1, sp := 0\<rparr> else r2)"
  using assms unfolding splitWith_def by (auto simp: bind_eq_Some_conv)

subsection \<open>Count consistency\<close>

lemma countInv_depth: "countInv r \<Longrightarrow> unat (depth r) < 32"
proof -
  assume a: "countInv r"
  have "unat (npages r) < 4294967296" using unsigned_less [of "npages r"] by simp
  with a have "(2::nat) ^ unat (depth r) < 4294967296" by (simp add: countInv_def)
  then show ?thesis by (rule two_pow_bound)
qed

lemma countInv_sameCtl: "sameCtl r r' \<Longrightarrow> countInv r \<Longrightarrow> countInv r'"
  by (simp add: sameCtl_def countInv_def)

lemma placeTuple_countInv: "preserves countInv (placeTuple th)"
  unfolding preserves_def using placeTuple_fields countInv_sameCtl by blast

lemma splitWith_countInv:
  assumes s: "splitWith ins r = Some r'" and pr: "preserves countInv ins" and inv: "countInv r"
  shows "countInv r'"
  using s
proof (cases rule: splitWith_cases)
  case (1 d1 x currPage d2 r1 r2)
  from 1(1) have len: "length (data r) < 4294967295" and d1: "d1 = data r @ [newPage]"
    by (auto simp: addPage_Some unat_NO_PAGE)
  from inv len have np: "unat (npages r) < 4294967295" and sp: "unat (sp r) < 4294967295"
    by (auto simp: countInv_def)
  from 1(3) have d2: "length d2 = length d1" by (auto simp: putPage_Some)
  have c0: "countInv (r\<lparr>data := d2, npages := npages r + 1, sp := sp r + 1\<rparr>)"
    using inv d1 d2 np sp by (simp add: countInv_def unat_succ)
  have c1: "countInv r1" by (rule reinsert_preserves [OF pr c0 1(4)])
  have c2: "countInv r2"
    using splitOvflow_preserves [OF 1(5), of countInv] pr c1 by (simp add: countInv_def)
  show ?thesis
  proof (cases "sp r2 = push_bit (unat (depth r2)) 1")
    case False
    with 1(6) c2 show ?thesis by simp
  next
    case True
    from c2 have d: "unat (depth r2) < 32" by (rule countInv_depth)
    then have d': "unat (depth r2 + 1) = unat (depth r2) + 1" by (simp add: unat_succ)
    from True d have "unat (sp r2) = 2 ^ unat (depth r2)" by (simp add: unat_two_pow)
    with True 1(6) c2 d' show ?thesis by (simp add: countInv_def)
  qed
qed

lemma addToRelation_countInv: "preserves countInv (addToRelation n th)"
proof (induction n)
  case 0
  show ?case by (simp add: preserves_def)
next
  case (Suc n)
  show ?case
    unfolding preserves_def
  proof (intro allI impI)
    fix r t r' p
    assume inv: "countInv r" and a: "addToRelation (Suc n) th r t = Some (r', p)"
    from a show "countInv r'"
    proof (cases rule: addToRelation_Suc_cases)
      case nosplit
      with inv show ?thesis using placeTuple_countInv unfolding preserves_def by blast
    next
      case (split r2)
      from inv have "countInv (r\<lparr>insertion := 0, splitting := True\<rparr>)"
        by (simp add: countInv_def)
      then have "countInv r2" by (rule splitWith_countInv [OF split(2) Suc])
      then have "countInv (r2\<lparr>splitting := False\<rparr>)" by (simp add: countInv_def)
      with split(3) show ?thesis using placeTuple_countInv unfolding preserves_def by blast
    qed
  qed
qed

lemma newRelation_countInv:
  assumes "unat d < 32" and "newRelation na (2 ^ unat d) d chv = Some r"
  shows "countInv r"
proof -
  from assms(1) have "unat ((2::32 word) ^ unat d) = 2 ^ unat d"
    by (simp add: unat_two_pow)
  with assms(2) show ?thesis
    by (auto simp: newRelation_def countInv_def bind_eq_Some_conv split: if_splits
        dest: addPages_length)
qed

text \<open>
  C3 (count consistency). A relation created with \<open>sp = 0\<close> and \<open>npages = 2^depth\<close>
  satisfies \<open>npages = 2^d + sp\<close> after any sequence of calls of \<^verbatim>\<open>addToRelation\<close>:
  as an equation between natural numbers, hence also between 32-bit counters.
\<close>

theorem count_consistency:
  assumes "unat d < 32"
    and "newRelation na (2 ^ unat d) d chv = Some r0"
    and "insertAll n th r0 ts = Some (r, ps)"
  shows "unat (npages r) = 2 ^ unat (depth r) + unat (sp r)
         \<and> npages r = 2 ^ unat (depth r) + sp r"
proof -
  have "countInv r0" using assms(1,2) by (rule newRelation_countInv)
  then have "countInv r"
    using insertAll_preserves [OF addToRelation_countInv _ assms(3)] by blast
  then have n: "unat (npages r) = 2 ^ unat (depth r) + unat (sp r)"
    by (simp add: countInv_def)
  have "npages r = word_of_nat (unat (npages r))" by simp
  also have "\<dots> = 2 ^ unat (depth r) + sp r" by (simp only: n) simp
  finally show ?thesis using n by simp
qed

subsection \<open>Evaluation of concrete runs\<close>

lemmas eval_defs = addPage_def unat_NO_PAGE newPage_def getPage_def putPage_def addToPage_def
  pageFreeSpace_def pageFree_def tupLength_def dataSize_def PAGESIZE_def hdr_size_def
  placeTuple_def placeFirstOvflow_def placeInChain_def splitWith_def bucketOf_def getLower_def
  countInsert_def pageSetOvflow_def scanChain.simps splitOvflow.simps Let_def

lemma addToRelation_2: "addToRelation 2 th r t = addToRelation (Suc (Suc 0)) th r t"
  by (simp add: numeral_2_eq_2)

lemma ex_new: "newRelation 60 (2 ^ unat (0::Count)) 0 [] = Some exR0"
  by (simp add: newRelation_def exR0_def eval_defs)

lemma ex_run: "insertAll 2 exHash exR0 [''a'', ''bb'', ''c''] = Some (exR3, [0, 0, 1])"
  by (simp add: exR0_def exR3_def exHash_def addToRelation_2 eval_defs)

theorem count_consistency_witness:
  "unat (0::Count) < 32
   \<and> newRelation 60 (2 ^ unat (0::Count)) 0 [] = Some exR0
   \<and> insertAll 2 exHash exR0 [''a'', ''bb'', ''c''] = Some (exR3, [0, 0, 1])
   \<and> unat (npages exR3) = 2 ^ unat (depth exR3) + unat (sp exR3)
   \<and> npages exR3 = 2 ^ unat (depth exR3) + sp exR3"
proof -
  have h: "unat (0::Count) < 32" by simp
  show ?thesis using h ex_new ex_run count_consistency [OF h ex_new ex_run] by blast
qed

subsection \<open>Tuple counting\<close>

lemma unat_max: "unat (x :: 32 word) \<le> 4294967295"
proof -
  have "unat x < 4294967296" using unsigned_less [of x] by simp
  then show ?thesis by simp
qed

lemma placeFirstOvflow_count:
  assumes "placeFirstOvflow r p pg t = Some (r', p')"
  shows "(p' = NO_PAGE \<and> ntups r' = ntups r \<and> insertion r' = insertion r)
         \<or> (p' = p \<and> ntups r' = ntups (countInsert r) \<and> insertion r' = insertion (countInsert r))"
  using assms
  by (auto simp: placeFirstOvflow_def bind_eq_Some_conv split: option.splits)

lemma placeInChain_count:
  assumes "placeInChain r p pg t = Some (r', p')"
  shows "(p' = NO_PAGE \<and> ntups r' = ntups r \<and> insertion r' = insertion r)
         \<or> (p' = p \<and> ntups r' = ntups (countInsert r) \<and> insertion r' = insertion (countInsert r))"
  using assms
proof (cases rule: placeInChain_cases)
  case (1 found)
  show ?thesis
  proof (cases found)
    case (Inl ov1)
    with 1 show ?thesis by auto
  next
    case (Inr prev)
    show ?thesis
    proof (cases prev)
      case None
      with Inr 1 show ?thesis by simp
    next
      case (Some a)
      obtain prevp prevpg where "a = (prevp, prevpg)" by (cases a)
      with Some Inr 1 show ?thesis
        by (auto simp: bind_eq_Some_conv split: option.splits)
    qed
  qed
qed

lemma placeTuple_count:
  assumes "placeTuple th r t = Some (r', p')"
  shows "(p' = NO_PAGE \<and> ntups r' = ntups r \<and> insertion r' = insertion r)
         \<or> (p' = bucketOf r (th t) \<and> unat p' < length (data r)
             \<and> ntups r' = ntups (countInsert r) \<and> insertion r' = insertion (countInsert r))"
proof -
  from assms obtain pg where
    g: "getPage (data r) (bucketOf r (th t)) = Some pg" and
    rest: "(case addToPage pg t of
          Some pg' \<Rightarrow> do {
            d1 \<leftarrow> putPage (data r) (bucketOf r (th t)) pg';
            Some (countInsert (r\<lparr>data := d1\<rparr>), bucketOf r (th t))
          }
        | None \<Rightarrow>
            if pageOvflow pg = NO_PAGE then placeFirstOvflow r (bucketOf r (th t)) pg t
            else placeInChain r (bucketOf r (th t)) pg t) = Some (r', p')"
    unfolding placeTuple_def Let_def by (auto simp: bind_eq_Some_conv)
  from g have lt: "unat (bucketOf r (th t)) < length (data r)" by (simp add: getPage_Some)
  show ?thesis
  proof (cases "addToPage pg t")
    case (Some pg')
    with rest lt show ?thesis by (auto simp: bind_eq_Some_conv)
  next
    case None
    with rest lt placeFirstOvflow_count [of r "bucketOf r (th t)" pg t r' p']
      placeInChain_count [of r "bucketOf r (th t)" pg t r' p']
    show ?thesis by (auto split: if_splits)
  qed
qed

lemma placeTuple_inSplit: "preserves (inSplit k m) (placeTuple th)"
  unfolding preserves_def
proof (intro allI impI)
  fix r t r' p
  assume a: "inSplit k m r" and b: "placeTuple th r t = Some (r', p)"
  from placeTuple_fields [OF b] placeTuple_count [OF b] a
  show "inSplit k m r'" by (auto simp: inSplit_def sameCtl_def)
qed

lemma splitWith_preserves:
  assumes s: "splitWith ins r = Some r'" and pr: "preserves P ins" and inv: "P r"
    and f1: "\<And>x d n s. P x \<Longrightarrow> P (x\<lparr>data := d, npages := n, sp := s\<rparr>)"
    and f2: "\<And>x ov. P x \<Longrightarrow> P (x\<lparr>ovflow := ov\<rparr>)"
    and f3: "\<And>x d s. P x \<Longrightarrow> P (x\<lparr>depth := d, sp := s\<rparr>)"
  shows "P r'"
  using s
proof (cases rule: splitWith_cases)
  case (1 d1 x currPage d2 r1 r2)
  have c0: "P (r\<lparr>data := d2, npages := npages r + 1, sp := sp r + 1\<rparr>)"
    using inv by (rule f1)
  have c1: "P r1" by (rule reinsert_preserves [OF pr c0 1(4)])
  have c2: "P r2"
    using splitOvflow_preserves [OF 1(5), of P] pr c1 f2 by blast
  show ?thesis using 1(6) c2 f3 by (cases "sp r2 = push_bit (unat (depth r2)) 1") auto
qed

lemma addToRelation_inSplit: "k \<noteq> 0 \<Longrightarrow> preserves (inSplit k m) (addToRelation n th)"
proof (cases n)
  case 0
  then show ?thesis by (simp add: preserves_def)
next
  case (Suc n')
  assume k: "k \<noteq> 0"
  show ?thesis
    unfolding preserves_def Suc
  proof (intro allI impI)
    fix r t r' p
    assume a: "inSplit k m r" and b: "addToRelation (Suc n') th r t = Some (r', p)"
    from a k have "insertion r \<noteq> c r" by (auto simp: inSplit_def)
    with b have "placeTuple th r t = Some (r', p)" by simp
    with a show "inSplit k m r'" using placeTuple_inSplit unfolding preserves_def by blast
  qed
qed

lemma addToRelation_count:
  assumes a: "addToRelation n th r t = Some (r', p)" and j: "ctlInv r" and ci: "countInv r"
  shows "ctlInv r' \<and> ntups r' = (if p = NO_PAGE then ntups r else ntups r + 1)
    \<and> insertion r' = (if insertion r = c r then 0 else insertion r)
                        + (if p = NO_PAGE then 0 else 1)"
proof (cases n)
  case 0
  with a show ?thesis by simp
next
  case (Suc n')
  have main: "ctlInv r' \<and> ntups r' = (if p = NO_PAGE then ntups x else ntups x + 1)
      \<and> insertion r' = insertion x + (if p = NO_PAGE then 0 else 1)"
    if pl: "placeTuple th x t = Some (r', p)" and x: "\<not> splitting x" "0 < c x" "insertion x < c x"
      "countInv x" for x
  proof -
    from x(4) have "length (data x) \<le> unat NO_PAGE"
      using unat_max [of "npages x"] by (simp add: countInv_def unat_NO_PAGE)
    with placeTuple_count [OF pl] have
      cnt: "(p = NO_PAGE \<and> ntups r' = ntups x \<and> insertion r' = insertion x)
         \<or> (p \<noteq> NO_PAGE \<and> ntups r' = ntups (countInsert x) \<and> insertion r' = insertion (countInsert x))"
      by (auto simp: word_less_nat_alt)
    from x(3) have "insertion x + 1 \<le> c x" by (simp add: inc_le)
    with cnt x placeTuple_fields [OF pl] show ?thesis
      by (auto simp: ctlInv_def sameCtl_def)
  qed
  from a [unfolded Suc] show ?thesis
  proof (cases rule: addToRelation_Suc_cases)
    case nosplit
    from nosplit(1) j have lt: "insertion r < c r" by (simp add: ctlInv_def less_le)
    from j have "\<not> splitting r" "0 < c r" by (simp_all add: ctlInv_def)
    from main [OF nosplit(2) this lt ci] nosplit(1) show ?thesis by simp
  next
    case (split r2)
    from j have k: "c r \<noteq> 0" by (auto simp: ctlInv_def)
    have "inSplit (c r) (ntups r) (r\<lparr>insertion := 0, splitting := True\<rparr>)"
      by (simp add: inSplit_def)
    then have q: "inSplit (c r) (ntups r) r2"
      by (rule splitWith_preserves [OF split(2) addToRelation_inSplit [OF k]])
         (simp_all add: inSplit_def)
    from ci have "countInv (r\<lparr>insertion := 0, splitting := True\<rparr>)" by (simp add: countInv_def)
    then have "countInv r2" by (rule splitWith_countInv [OF split(2) addToRelation_countInv])
    then have c2: "countInv (r2\<lparr>splitting := False\<rparr>)" by (simp add: countInv_def)
    from q k j have x: "0 < c (r2\<lparr>splitting := False\<rparr>)"
      "insertion (r2\<lparr>splitting := False\<rparr>) < c (r2\<lparr>splitting := False\<rparr>)"
      and y: "ntups (r2\<lparr>splitting := False\<rparr>) = ntups r"
      "insertion (r2\<lparr>splitting := False\<rparr>) = 0"
      by (auto simp: inSplit_def ctlInv_def)
    have "\<not> splitting (r2\<lparr>splitting := False\<rparr>)" by simp
    from main [OF split(3) this x c2] y split(1) show ?thesis by simp
  qed
qed

lemma addToRelation_c: "preserves (\<lambda>x. c x = k) (addToRelation n th)"
proof (induction n)
  case 0
  show ?case by (simp add: preserves_def)
next
  case (Suc n)
  show ?case
    unfolding preserves_def
  proof (intro allI impI)
    fix r t r' p
    assume k: "c r = k" and a: "addToRelation (Suc n) th r t = Some (r', p)"
    from a show "c r' = k"
    proof (cases rule: addToRelation_Suc_cases)
      case nosplit
      from placeTuple_fields [OF nosplit(2)] k show ?thesis by (simp add: sameCtl_def)
    next
      case (split r2)
      from k have "c (r\<lparr>insertion := 0, splitting := True\<rparr>) = k" by simp
      then have "c r2 = k"
        by (rule splitWith_preserves [OF split(2) Suc.IH]) simp_all
      with placeTuple_fields [OF split(3)] show ?thesis by (simp add: sameCtl_def)
    qed
  qed
qed

text \<open>
  C6 (tuple counting). For a relation at rest, after any sequence of calls of
  \<^verbatim>\<open>addToRelation\<close> the counter \<open>ntups\<close> has grown by the number of calls that did not
  return \<open>NO_PAGE\<close> (in 32-bit arithmetic), and the counter \<open>insertion\<close> is the one that
  restarts at zero at every split and grows by one at every such call. For one call, both
  counters grow by one iff the call succeeds, \<open>insertion\<close> from zero when the call has
  split. The split that \<^verbatim>\<open>addToRelation\<close> starts (lines 142-144) returns with \<open>ntups\<close>
  as before and \<open>insertion\<close> at zero, and a call made inside a split (the flag set, the
  counter at zero) changes neither counter: the tuples that a split inserts again are not
  counted.
\<close>

theorem tuple_counting:
  assumes "ctlInv r" and "countInv r" and "insertAll n th r ts = Some (r', ps)"
  shows "ntups r' = ntups r + word_of_nat (length (filter (\<lambda>p. p \<noteq> NO_PAGE) ps))
    \<and> insertion r' = insertionAfter (c r) (insertion r) ps
    \<and> (\<forall>t r1 p. addToRelation n th r t = Some (r1, p) \<longrightarrow>
          ntups r1 = ntups r + (if p = NO_PAGE then 0 else 1)
          \<and> insertion r1 = (if insertion r = c r then 0 else insertion r)
                             + (if p = NO_PAGE then 0 else 1))
    \<and> (\<forall>m r2. splitSp m th (r\<lparr>insertion := 0, splitting := True\<rparr>) = Some r2 \<longrightarrow>
          ntups r2 = ntups r \<and> insertion r2 = 0 \<and> splitting r2)
    \<and> (\<forall>m x t x' p. splitting x \<and> insertion x = 0 \<and> c x \<noteq> 0
            \<and> addToRelation m th x t = Some (x', p) \<longrightarrow>
          ntups x' = ntups x \<and> insertion x' = insertion x \<and> splitting x')"
proof -
  have run: "ntups r' = ntups r + word_of_nat (length (filter (\<lambda>p. p \<noteq> NO_PAGE) ps))
      \<and> insertion r' = insertionAfter (c r) (insertion r) ps \<and> c r' = c r"
    using assms
  proof (induction ts arbitrary: r ps)
    case Nil
    then show ?case by simp
  next
    case (Cons t ts)
    from Cons.prems(3) obtain r1 p ps' where
      a: "addToRelation n th r t = Some (r1, p)" and b: "insertAll n th r1 ts = Some (r', ps')"
      and ps: "ps = p # ps'"
      by (auto simp: bind_eq_Some_conv)
    from addToRelation_count [OF a Cons.prems(1,2)] have
      j: "ctlInv r1" and n: "ntups r1 = (if p = NO_PAGE then ntups r else ntups r + 1)"
      and i: "insertion r1 = (if insertion r = c r then 0 else insertion r)
                          + (if p = NO_PAGE then 0 else 1)" by auto
    have cc: "c r1 = c r"
      using addToRelation_c [of "c r" n th] a unfolding preserves_def by blast
    from a Cons.prems(2) have "countInv r1"
      using addToRelation_countInv unfolding preserves_def by blast
    from Cons.IH [OF j this b] n i cc ps show ?case by simp
  qed
  have one: "ntups r1 = ntups r + (if p = NO_PAGE then 0 else 1)
      \<and> insertion r1 = (if insertion r = c r then 0 else insertion r)
                         + (if p = NO_PAGE then 0 else 1)"
    if "addToRelation n th r t = Some (r1, p)" for t r1 p
    using addToRelation_count [OF that assms(1,2)] by simp
  from assms(1) have k: "c r \<noteq> 0" by (auto simp: ctlInv_def)
  have inner: "ntups x' = ntups x \<and> insertion x' = insertion x \<and> splitting x'"
    if "splitting x" "insertion x = 0" "c x \<noteq> 0" "addToRelation m th x t = Some (x', p)"
    for m x t x' p
  proof -
    from that(1,2) have "inSplit (c x) (ntups x) x" by (simp add: inSplit_def)
    with addToRelation_inSplit [OF that(3), of "ntups x" m th] that(4)
    have "inSplit (c x) (ntups x) x'" unfolding preserves_def by blast
    with that(2) show ?thesis by (simp add: inSplit_def)
  qed
  have split: "ntups r2 = ntups r \<and> insertion r2 = 0 \<and> splitting r2"
    if "splitSp m th (r\<lparr>insertion := 0, splitting := True\<rparr>) = Some r2" for m r2
  proof -
    from that have s: "splitWith (addToRelation m th) (r\<lparr>insertion := 0, splitting := True\<rparr>)
        = Some r2" by (simp add: splitSp_def)
    have "inSplit (c r) (ntups r) (r\<lparr>insertion := 0, splitting := True\<rparr>)"
      by (simp add: inSplit_def)
    then have "inSplit (c r) (ntups r) r2"
      by (rule splitWith_preserves [OF s addToRelation_inSplit [OF k]])
         (simp_all add: inSplit_def)
    then show ?thesis by (simp add: inSplit_def)
  qed
  from run one inner split show ?thesis by blast
qed

lemma length_exBig: "length exBig = 1012"
  by (simp add: exBig_def)

lemma ex_run_big:
  "insertAll 2 exHash exR0 [''a'', exBig, ''bb'', ''c''] = Some (exR4, [0, NO_PAGE, 0, 1])"
  by (simp add: exR0_def exR4_def exHash_def length_exBig addToRelation_2 eval_defs)

theorem tuple_counting_witness:
  "ctlInv exR0 \<and> countInv exR0
   \<and> insertAll 2 exHash exR0 [''a'', exBig, ''bb'', ''c''] = Some (exR4, [0, NO_PAGE, 0, 1])
   \<and> ntups exR4 = ntups exR0 + 3
   \<and> insertion exR4 = insertionAfter (c exR0) (insertion exR0) [0, NO_PAGE, 0, 1]
   \<and> insertion exR4 = 1"
proof -
  have h1: "ctlInv exR0" by (simp add: ctlInv_def exR0_def)
  have h2: "countInv exR0" by (simp add: countInv_def exR0_def)
  have ne: "(0::PageID) \<noteq> NO_PAGE" "(1::PageID) \<noteq> NO_PAGE" by (simp_all add: NO_PAGE_def)
  from tuple_counting [OF h1 h2 ex_run_big] have
    "ntups exR4 = ntups exR0 + word_of_nat (length (filter (\<lambda>p. p \<noteq> NO_PAGE) [0, NO_PAGE, 0, 1]))"
    "insertion exR4 = insertionAfter (c exR0) (insertion exR0) [0, NO_PAGE, 0, 1]"
    by blast+
  moreover have "insertion exR4 = 1" by (simp add: exR4_def)
  ultimately show ?thesis using h1 h2 ex_run_big ne by simp
qed

subsection \<open>The query engine\<close>

lemma getLower_take_bit: "getLower h k = take_bit k h"
  by (simp add: getLower_def take_bit_eq_mask mask_eq_exp_minus_1)

lemma unat_getLower: "unat (getLower h k) = unat h mod 2 ^ k"
proof -
  have "unat (take_bit k h) = take_bit k (unat h)" by (fact unsigned_take_bit_eq)
  also have "\<dots> = unat h mod 2 ^ k" by (fact take_bit_eq_mod)
  finally show ?thesis by (simp only: getLower_take_bit)
qed

lemma mod_two_pow_Suc: "(x::nat) mod 2 ^ (k + 1) \<le> x mod 2 ^ k + 2 ^ k"
proof -
  have e: "(2::nat) ^ (k + 1) = 2 ^ k * 2" by simp
  have "x mod 2 ^ (k + 1) = 2 ^ k * (x div 2 ^ k mod 2) + x mod 2 ^ k"
    unfolding e by (rule mod_mult2_eq)
  moreover have "(2::nat) ^ k * (x div 2 ^ k mod 2) \<le> 2 ^ k * 1"
    by (rule mult_le_mono2) simp
  ultimately show ?thesis by simp
qed

lemma bucketOf_bound:
  assumes "unat (sp r) < 2 ^ unat (depth r)"
    and "unat (npages r) = 2 ^ unat (depth r) + unat (sp r)"
  shows "bucketOf r h < npages r"
proof -
  let ?d = "unat (depth r)"
  have low: "unat (getLower h ?d) < 2 ^ ?d" by (simp add: unat_getLower)
  show ?thesis
  proof (cases "getLower h ?d < sp r")
    case False
    with low assms(2) show ?thesis by (simp add: bucketOf_def word_less_nat_alt)
  next
    case True
    have "unat (getLower h (?d + 1)) \<le> unat (getLower h ?d) + 2 ^ ?d"
      unfolding unat_getLower by (rule mod_two_pow_Suc)
    with True assms(2) show ?thesis by (simp add: bucketOf_def word_less_nat_alt)
  qed
qed

lemma nextPageId_bound:
  assumes "unat (sp r) < 2 ^ unat (depth r)"
    and "unat (npages r) = 2 ^ unat (depth r) + unat (sp r)"
    and "nextPageId r l h = Some p"
  shows "p < npages r"
  using assms(3) bucketOf_bound [OF assms(1,2)]
  by (auto simp: nextPageId_def split: if_splits)

lemma sameBucket_refl: "sameBucket q q"
  by (simp add: sameBucket_def sameQuery_def)

lemma sameBucket_trans: "sameBucket q q1 \<Longrightarrow> sameBucket q1 q2 \<Longrightarrow> sameBucket q q2"
  by (simp add: sameBucket_def sameQuery_def)

lemma scanPage_sameBucket: "scanPage q = (q', res) \<Longrightarrow> sameBucket q q'"
proof (induction q rule: scanPage.induct)
  case (1 q)
  show ?case
  proof (cases "nTupleScanned q < pageNTuples (curpage q)")
    case False
    with 1(2) show ?thesis by (simp add: scanPage.simps [of q] sameBucket_refl)
  next
    case True
    show ?thesis
    proof (cases "tupleMatch (rel q) (query q) (pageData (curpage q) ! nTupleScanned q)")
      case m: True
      with True 1(2) show ?thesis
        by (auto simp: scanPage.simps [of q] sameBucket_def sameQuery_def)
    next
      case m: False
      with True 1(2) have "scanPage (q\<lparr>nTupleScanned := nTupleScanned q + 1\<rparr>) = (q', res)"
        by (simp add: scanPage.simps [of q])
      from 1(1) [OF True m this] show ?thesis
        by (simp add: sameBucket_def sameQuery_def)
    qed
  qed
qed

lemma scanPage_match:
  "scanPage q = (q', Some t) \<Longrightarrow> tupleMatch (rel q) (query q) t"
proof (induction q rule: scanPage.induct)
  case (1 q)
  show ?case
  proof (cases "nTupleScanned q < pageNTuples (curpage q)")
    case False
    with 1(2) show ?thesis by (simp add: scanPage.simps [of q])
  next
    case True
    show ?thesis
    proof (cases "tupleMatch (rel q) (query q) (pageData (curpage q) ! nTupleScanned q)")
      case m: True
      with True 1(2) show ?thesis
        by (auto simp: scanPage.simps [of q])
    next
      case m: False
      with True 1(2) have "scanPage (q\<lparr>nTupleScanned := nTupleScanned q + 1\<rparr>) = (q', Some t)"
        by (simp add: scanPage.simps [of q])
      from 1(1) [OF True m this] show ?thesis by simp
    qed
  qed
qed

lemmas scanOvflowPages_induct =
  scanOvflowPages.raw_induct [rotated 1, consumes 1, case_names step]

lemma scanOvflowPages_sound:
  "scanOvflowPages q = Some (q', res) \<Longrightarrow>
   sameBucket q q' \<and> (\<forall>t. res = Some t \<longrightarrow> tupleMatch (rel q) (query q) t)"
proof (induction q "(q', res)" arbitrary: q' res rule: scanOvflowPages_induct)
  case (step scanOvflowPages q)
  show ?case
  proof (cases "pageOvflow (curpage q) = NO_PAGE")
    case True
    with step(2) show ?thesis by (auto simp: sameBucket_refl)
  next
    case False
    with step(2) obtain pg where
      rest: "(case scanPage (q\<lparr>curpage := pg, nTupleScanned := 0\<rparr>) of
          (q1, Some t) \<Rightarrow> Some (q1, Some t)
        | (q1, None) \<Rightarrow> scanOvflowPages q1) = Some (q', res)"
      by (auto simp: bind_eq_Some_conv)
    obtain q1 r1 where sp: "scanPage (q\<lparr>curpage := pg, nTupleScanned := 0\<rparr>) = (q1, r1)"
      by (cases "scanPage (q\<lparr>curpage := pg, nTupleScanned := 0\<rparr>)")
    have sb: "sameBucket q q1"
      using scanPage_sameBucket [OF sp] by (simp add: sameBucket_def sameQuery_def)
    show ?thesis
    proof (cases r1)
      case None
      with rest sp have "scanOvflowPages q1 = Some (q', res)" by simp
      from step(1) [OF this] sb show ?thesis
        by (auto simp: sameBucket_def sameQuery_def)
    next
      case (Some t)
      with rest sp have "q' = q1" "res = Some t" by auto
      with sb scanPage_match [of "q\<lparr>curpage := pg, nTupleScanned := 0\<rparr>" q1 t] sp Some
      show ?thesis by auto
    qed
  qed
qed

lemmas getNextTuple_induct = getNextTuple.raw_induct [rotated 1, consumes 1, case_names step]

lemma getNextTuple_body_cases:
  assumes "(case scanPage q of
        (q1, Some t) \<Rightarrow> Some (q1, Some t)
      | (q1, None) \<Rightarrow> do {
          (q2, res) \<leftarrow> scanOvflowPages q1;
          case res of
            Some t \<Rightarrow> Some (q2, Some t)
          | None \<Rightarrow>
              if bitSeq q2 = bitSeqMax q2 then Some (q2, None)
              else do { q3 \<leftarrow> nextBucket q2; f q3 }
        }) = Some (q', res)"
  obtains (primary) t where "scanPage q = (q', Some t)" "res = Some t"
  | (ovflow) q1 t where "scanPage q = (q1, None)" "scanOvflowPages q1 = Some (q', Some t)"
      "res = Some t"
  | (last) q1 where "scanPage q = (q1, None)" "scanOvflowPages q1 = Some (q', None)"
      "bitSeq q' = bitSeqMax q'" "res = None"
  | (advance) q1 q2 q3 where "scanPage q = (q1, None)" "scanOvflowPages q1 = Some (q2, None)"
      "bitSeq q2 \<noteq> bitSeqMax q2" "nextBucket q2 = Some q3" "f q3 = Some (q', res)"
proof -
  obtain q1 r1 where sp: "scanPage q = (q1, r1)" by (cases "scanPage q")
  show ?thesis
  proof (cases r1)
    case (Some t)
    with sp assms primary show ?thesis by auto
  next
    case None
    with sp assms obtain q2 r2 where so: "scanOvflowPages q1 = Some (q2, r2)" and
      rest: "(case r2 of Some t \<Rightarrow> Some (q2, Some t)
          | None \<Rightarrow> if bitSeq q2 = bitSeqMax q2 then Some (q2, None)
              else do { q3 \<leftarrow> nextBucket q2; f q3 }) = Some (q', res)"
      by (auto simp: bind_eq_Some_conv)
    show ?thesis
    proof (cases r2)
      case (Some t)
      with rest so sp None ovflow show ?thesis by auto
    next
      case n2: None
      show ?thesis
      proof (cases "bitSeq q2 = bitSeqMax q2")
        case True
        with rest so sp None n2 last show ?thesis by auto
      next
        case False
        with rest n2 obtain q3 where "nextBucket q2 = Some q3" "f q3 = Some (q', res)"
          by (auto simp: bind_eq_Some_conv)
        with so sp None n2 False advance show ?thesis by auto
      qed
    qed
  qed
qed

text \<open>An invariant of the query that holds along a bucket and across the move to the next.\<close>

lemma getNextTuple_invariant:
  assumes g: "getNextTuple q = Some (q', res)"
    and sb: "\<And>x y. I x \<Longrightarrow> sameBucket x y \<Longrightarrow> I y"
    and nb: "\<And>x y. I x \<Longrightarrow> bitSeq x \<noteq> bitSeqMax x \<Longrightarrow> nextBucket x = Some y \<Longrightarrow> I y"
  shows "I q \<longrightarrow> I q'"
  using g
proof (induction q "(q', res)" arbitrary: q' res rule: getNextTuple_induct)
  case (step getNextTuple q)
  from step(2) show ?case
  proof (cases rule: getNextTuple_body_cases)
    case (primary t)
    with sb scanPage_sameBucket show ?thesis by blast
  next
    case (ovflow q1 t)
    with sb scanPage_sameBucket scanOvflowPages_sound show ?thesis by blast
  next
    case (last q1)
    with sb scanPage_sameBucket scanOvflowPages_sound show ?thesis by blast
  next
    case (advance q1 q2 q3)
    show ?thesis
    proof
      assume "I q"
      with advance(1) sb scanPage_sameBucket have "I q1" by blast
      with advance(2) sb scanOvflowPages_sound have "I q2" by blast
      with advance(3,4) nb have "I q3" by blast
      with step(1) [OF advance(5)] show "I q'" by blast
    qed
  qed
qed

lemma nextBucket_sameQuery: "nextBucket q = Some q' \<Longrightarrow> sameQuery q q'"
  by (auto simp: nextBucket_def Let_def sameQuery_def bind_eq_Some_conv
      split: if_splits option.splits)

lemma getNextTuple_sameQuery:
  "getNextTuple q = Some (q', res) \<Longrightarrow> sameQuery q q'"
proof -
  assume a: "getNextTuple q = Some (q', res)"
  have "sameQuery q q \<longrightarrow> sameQuery q q'"
    by (rule getNextTuple_invariant [OF a])
       (auto simp: sameBucket_def sameQuery_def dest: nextBucket_sameQuery)
  then show ?thesis by (simp add: sameQuery_def)
qed

lemma getNextTuple_match:
  "getNextTuple q = Some (q', Some t) \<Longrightarrow> tupleMatch (rel q) (query q) t"
proof (induction q "(q', Some t)" arbitrary: q' rule: getNextTuple_induct)
  case (step getNextTuple q)
  from step(2) show ?case
  proof (cases rule: getNextTuple_body_cases)
    case (primary t)
    then show ?thesis using scanPage_match by auto
  next
    case (ovflow q1 t')
    with scanPage_sameBucket [OF ovflow(1)] scanOvflowPages_sound [OF ovflow(2)]
    show ?thesis by (auto simp: sameBucket_def sameQuery_def)
  next
    case (last q1)
    then show ?thesis by simp
  next
    case (advance q1 q2 q3)
    from scanPage_sameBucket [OF advance(1)] scanOvflowPages_sound [OF advance(2)]
      nextBucket_sameQuery [OF advance(4)]
    have "rel q3 = rel q" "query q3 = query q" by (auto simp: sameBucket_def sameQuery_def)
    with step(1) [OF advance(5)] show ?thesis by simp
  qed
qed

lemmas runQuery_induct = runQuery.raw_induct [rotated 1, consumes 1, case_names step]

lemma runQuery_invariant:
  assumes g: "runQuery q = Some (ts, q')"
    and st: "\<And>x y res. I x \<Longrightarrow> getNextTuple x = Some (y, res) \<Longrightarrow> I y"
  shows "I q \<longrightarrow> I q'"
  using g
proof (induction q "(ts, q')" arbitrary: ts q' rule: runQuery_induct)
  case (step runQuery q)
  from step(2) obtain q1 res where
    g: "getNextTuple q = Some (q1, res)" and
    rest: "(case res of None \<Rightarrow> Some ([], q1)
         | Some t \<Rightarrow> do { (ts, q2) \<leftarrow> runQuery q1; Some (t # ts, q2) }) = Some (ts, q')"
    by (auto simp: bind_eq_Some_conv)
  show ?case
  proof (cases res)
    case None
    with rest g st show ?thesis by auto
  next
    case (Some t)
    with rest obtain ts' where "runQuery q1 = Some (ts', q')"
      by (auto simp: bind_eq_Some_conv)
    from step(1) [OF this] g st show ?thesis by blast
  qed
qed

lemma formMax_mask: "formMax n = mask n"
proof (induction n)
  case 0
  show ?case by (simp add: formMax_def)
next
  case (Suc n)
  have "formMax (Suc n) = setBit (formMax n) n" by (simp add: formMax_def)
  with Suc show ?case by (simp add: setBit_def mask_Suc_exp or.commute)
qed

lemma unat_mask_less: "unat (mask n :: 32 word) < 2 ^ n"
proof -
  have "(mask n :: 32 word) = take_bit n (- 1)" by simp
  then have "unat (mask n :: 32 word) = take_bit n (unat (- 1 :: 32 word))"
    by (simp only: unsigned_take_bit_eq)
  then show ?thesis by (simp only: take_bit_eq_mod) simp
qed

lemma startQuery_cases:
  assumes "startQuery hash_any r pat = Some q"
  obtains k stars pg where
    "length (tupleVals pat) = unat (nattrs r)"
    "formKnown hash_any (cv r) (tupleVals pat) [0 ..< unat (depth r + 1)] (0, []) = Some (k, stars)"
    "getPage (data r) (bucketOf r (formUnknown (length stars) stars 0 OR k)) = Some pg"
    "q = \<lparr>query = pat, rel = r, known = k, unknown = formUnknown (length stars) stars 0,
          nstars = length stars, starBits = stars, bitSeq = 0,
          bitSeqMax = formMax (length stars), curpage = pg, nTupleScanned = 0,
          fetched = [bucketOf r (formUnknown (length stars) stars 0 OR k)]\<rparr>"
  using assms unfolding startQuery_def Let_def
  by (auto simp: bind_eq_Some_conv split: if_splits)

lemma startQuery_fetchCount: "startQuery hash_any r pat = Some q \<Longrightarrow> fetchCount q"
  by (erule startQuery_cases) (simp add: fetchCount_def formMax_mask)

lemma nextBucket_fetched:
  assumes "nextBucket q = Some q'"
  shows "bitSeq q' = bitSeq q + 1 \<and>
    (case nextPageId (rel q) (starBits q ! (nstars q - 1)) (unknown q' OR known q) of
       Some p \<Rightarrow> fetched q' = fetched q @ [p]
     | None \<Rightarrow> fetched q' = fetched q \<and> curpage q' = curpage q
          \<and> nTupleScanned q' = nTupleScanned q)"
  using assms
  by (auto simp: nextBucket_def Let_def bind_eq_Some_conv split: if_splits option.splits)

lemma nextBucket_fetchCount:
  assumes "fetchCount q" and "bitSeq q \<noteq> bitSeqMax q" and "nextBucket q = Some q'"
  shows "fetchCount q'"
proof -
  from assms(1) have "bitSeq q \<le> bitSeqMax q" unfolding fetchCount_def by blast
  with assms(2) have lt: "bitSeq q < bitSeqMax q" by (simp add: less_le)
  then have "unat (bitSeq q) < 4294967295"
    using unat_max [of "bitSeqMax q"] by (simp add: word_less_nat_alt)
  then have u: "unat (bitSeq q + 1) = unat (bitSeq q) + 1" by (rule unat_succ)
  from lt have le: "bitSeq q + 1 \<le> bitSeqMax q" by (simp add: inc_le)
  from nextBucket_fetched [OF assms(3)] have
    "bitSeq q' = bitSeq q + 1" "length (fetched q') \<le> length (fetched q) + 1"
    by (auto split: option.splits)
  with u le assms(1) nextBucket_sameQuery [OF assms(3)] show ?thesis
    by (simp add: fetchCount_def sameQuery_def)
qed

lemma getNextTuple_fetchCount:
  "getNextTuple q = Some (q', res) \<Longrightarrow> fetchCount q \<Longrightarrow> fetchCount q'"
proof -
  assume a: "getNextTuple q = Some (q', res)"
  have "fetchCount q \<longrightarrow> fetchCount q'"
  proof (rule getNextTuple_invariant [OF a])
    show "fetchCount y" if "fetchCount x" "sameBucket x y" for x y
      using that unfolding fetchCount_def sameBucket_def sameQuery_def by metis
    show "fetchCount y" if "fetchCount x" "bitSeq x \<noteq> bitSeqMax x" "nextBucket x = Some y" for x y
      using that by (rule nextBucket_fetchCount)
  qed
  then show "fetchCount q \<Longrightarrow> fetchCount q'" by simp
qed

lemma fetchCount_bound: "fetchCount q \<Longrightarrow> length (fetched q) \<le> 2 ^ nstars q"
proof -
  assume a: "fetchCount q"
  then have le: "bitSeq q \<le> bitSeqMax q" and m: "bitSeqMax q = mask (nstars q)"
    and l: "length (fetched q) \<le> unat (bitSeq q) + 1"
    unfolding fetchCount_def by blast+
  from le have "unat (bitSeq q) \<le> unat (bitSeqMax q)" by (simp add: word_le_nat_alt)
  moreover have "unat (bitSeqMax q) < 2 ^ nstars q"
    unfolding m by (rule unat_mask_less)
  ultimately show ?thesis using l by linarith
qed

lemmas query_eval_defs = startQuery_def nextBucket_def nextPageId_def formUnknown_def
  formMax_def tupleMatch_def field_def bitIsSet_def setBit_def bucketOf_def getLower_def
  getPage_def unat_NO_PAGE pageNTuples_def Let_def
  scanPage.simps scanOvflowPages.simps getNextTuple.simps upt_rec

lemma ex_start_a: "startQuery exHash exQR ''a,?'' = Some exQa"
  by (simp add: exQR_def exQa_def exHash_def query_eval_defs)

lemma ex_start_0: "startQuery exHash exQR ''?,?'' = Some exQ0"
  by (simp add: exQR_def exQ0_def exHash_def query_eval_defs)

lemma ex_next_a:
  "getNextTuple exQa = Some (exQa\<lparr>nTupleScanned := 1\<rparr>, Some ''a,yy'')"
  by (simp add: exQR_def exQa_def query_eval_defs)

lemma callsOf_7:
  "callsOf 7 q = callsOf (Suc (Suc (Suc (Suc (Suc (Suc (Suc 0))))))) q"
  by (simp add: eval_nat_numeral)

lemma ex_calls_0: "callsOf 7 exQ0 = Some exQ7"
  by (simp add: callsOf_7 exQR_def exQ0_def exQ7_def NO_PAGE_def query_eval_defs)

lemma callsOf_invariant:
  assumes st: "\<And>x y res. I x \<Longrightarrow> getNextTuple x = Some (y, res) \<Longrightarrow> I y"
  shows "callsOf n q = Some q' \<Longrightarrow> I q \<Longrightarrow> I q'"
proof (induction n arbitrary: q)
  case 0
  then show ?case by simp
next
  case (Suc n)
  from Suc.prems(1) obtain q1 res where
    "getNextTuple q = Some (q1, res)" "callsOf n q1 = Some q'"
    by (auto simp: bind_eq_Some_conv)
  with Suc.IH Suc.prems(2) st show ?case by blast
qed

text \<open>
  C4 (query soundness). Every tuple that \<^verbatim>\<open>getNextTuple\<close> returns matches the pattern
  of the query: at every attribute whose pattern field is not the wildcard, the field of
  the tuple is the field of the pattern.
\<close>

theorem query_soundness:
  assumes "getNextTuple q = Some (q', Some t)"
  shows "\<forall>i < unat (nattrs (rel q)).
           field (tupleVals (query q)) i \<noteq> Some ''?''
           \<longrightarrow> field (tupleVals t) i = field (tupleVals (query q)) i"
  using getNextTuple_match [OF assms] by (auto simp: tupleMatch_def)

theorem query_soundness_witness:
  "getNextTuple exQa = Some (exQa\<lparr>nTupleScanned := 1\<rparr>, Some ''a,yy'')
   \<and> unat (nattrs (rel exQa)) = 2
   \<and> field (tupleVals (query exQa)) 0 = Some ''a''
   \<and> field (tupleVals ''a,yy'') 0 = field (tupleVals (query exQa)) 0"
proof -
  have p: "field (tupleVals (query exQa)) 0 = Some ''a''"
    by (simp add: exQa_def field_def)
  have n: "unat (nattrs (rel exQa)) = 2" by (simp add: exQa_def exQR_def)
  then have "(0::nat) < unat (nattrs (rel exQa))" by simp
  moreover from p have "field (tupleVals (query exQa)) 0 \<noteq> Some ''?''" by simp
  ultimately have "field (tupleVals ''a,yy'') 0 = field (tupleVals (query exQa)) 0"
    using query_soundness [OF ex_next_a] by blast
  with ex_next_a n p show ?thesis by blast
qed

text \<open>The log of fetches follows \<open>bitSeq\<close> value by value.\<close>

lemma startQuery_fetchTrace: "startQuery hash_any r pat = Some q \<Longrightarrow> fetchTrace q"
  by (erule startQuery_cases) (simp add: fetchTrace_def fetchCount_def formMax_mask)

lemma nextBucket_unknown:
  "nextBucket q = Some q' \<Longrightarrow> unknown q' = formUnknown (nstars q) (starBits q) (bitSeq q + 1)"
  by (auto simp: nextBucket_def Let_def bind_eq_Some_conv split: if_splits option.splits)

lemma nextBucket_fetchTrace:
  assumes "fetchTrace q" and "bitSeq q \<noteq> bitSeqMax q" and "nextBucket q = Some q'"
  shows "fetchTrace q'"
proof -
  from assms(1) have fc: "fetchCount q"
    and f: "fetched q = visited (rel q) (known q) (nstars q) (starBits q) (unat (bitSeq q))"
    by (simp_all add: fetchTrace_def)
  from fc have "bitSeq q \<le> bitSeqMax q" unfolding fetchCount_def by blast
  with assms(2) have lt: "bitSeq q < bitSeqMax q" by (simp add: less_le)
  then have "unat (bitSeq q) < 4294967295"
    using unat_max [of "bitSeqMax q"] by (simp add: word_less_nat_alt)
  then have u: "unat (bitSeq q + 1) = Suc (unat (bitSeq q))" using unat_succ by simp
  have w: "(word_of_nat (Suc (unat (bitSeq q))) :: Bits) = bitSeq q + 1" by simp
  from nextBucket_sameQuery [OF assms(3)] have sq: "rel q' = rel q" "known q' = known q"
    "nstars q' = nstars q" "starBits q' = starBits q" by (simp_all add: sameQuery_def)
  from nextBucket_fetched [OF assms(3)] have b: "bitSeq q' = bitSeq q + 1"
    and c: "(case nextPageId (rel q) (starBits q ! (nstars q - 1)) (unknown q' OR known q) of
       Some p \<Rightarrow> fetched q' = fetched q @ [p]
     | None \<Rightarrow> fetched q' = fetched q \<and> curpage q' = curpage q
          \<and> nTupleScanned q' = nTupleScanned q)" by blast+
  note un = nextBucket_unknown [OF assms(3)]
  have v: "visited (rel q) (known q) (nstars q) (starBits q) (Suc (unat (bitSeq q)))
      = visited (rel q) (known q) (nstars q) (starBits q) (unat (bitSeq q)) @
        (case nextPageId (rel q) (starBits q ! (nstars q - 1))
                (formUnknown (nstars q) (starBits q) (bitSeq q + 1) OR known q) of
           Some p \<Rightarrow> [p] | None \<Rightarrow> [])"
    by (simp only: visited.simps w)
  have "fetched q' = visited (rel q) (known q) (nstars q) (starBits q) (Suc (unat (bitSeq q)))"
    unfolding v using c f unfolding un
    by (cases "nextPageId (rel q) (starBits q ! (nstars q - 1))
                (formUnknown (nstars q) (starBits q) (bitSeq q + 1) OR known q)") simp_all
  with nextBucket_fetchCount [OF fc assms(2,3)] sq b u show ?thesis
    by (simp add: fetchTrace_def)
qed

lemma getNextTuple_fetchTrace:
  "getNextTuple q = Some (q', res) \<Longrightarrow> fetchTrace q \<Longrightarrow> fetchTrace q'"
proof -
  assume a: "getNextTuple q = Some (q', res)"
  have "fetchTrace q \<longrightarrow> fetchTrace q'"
  proof (rule getNextTuple_invariant [OF a])
    show "fetchTrace y" if "fetchTrace x" "sameBucket x y" for x y
      using that unfolding fetchTrace_def fetchCount_def sameBucket_def sameQuery_def by metis
    show "fetchTrace y" if "fetchTrace x" "bitSeq x \<noteq> bitSeqMax x" "nextBucket x = Some y" for x y
      using that by (rule nextBucket_fetchTrace)
  qed
  then show "fetchTrace q \<Longrightarrow> fetchTrace q'" by simp
qed

lemma getNextTuple_exhausted:
  "getNextTuple q = Some (q', res) \<Longrightarrow> res = None \<longrightarrow> bitSeq q' = bitSeqMax q'"
proof (induction q "(q', res)" arbitrary: q' res rule: getNextTuple_induct)
  case (step getNextTuple q)
  from step(2) show ?case
  proof (cases rule: getNextTuple_body_cases)
    case (primary t)
    then show ?thesis by simp
  next
    case (ovflow q1 t)
    then show ?thesis by simp
  next
    case (last q1)
    then show ?thesis by simp
  next
    case (advance q1 q2 q3)
    from step(1) [OF advance(5)] show ?thesis .
  qed
qed

lemma runQuery_exhausted:
  "runQuery q = Some (ts, q') \<Longrightarrow> bitSeq q' = bitSeqMax q'"
proof (induction q "(ts, q')" arbitrary: ts q' rule: runQuery_induct)
  case (step runQuery q)
  from step(2) obtain q1 res where
    g: "getNextTuple q = Some (q1, res)" and
    rest: "(case res of None \<Rightarrow> Some ([], q1)
         | Some t \<Rightarrow> do { (ts, q2) \<leftarrow> runQuery q1; Some (t # ts, q2) }) = Some (ts, q')"
    by (auto simp: bind_eq_Some_conv)
  show ?case
  proof (cases res)
    case None
    with rest g getNextTuple_exhausted [OF g] show ?thesis by auto
  next
    case (Some t)
    with rest obtain ts' where "runQuery q1 = Some (ts', q')"
      by (auto simp: bind_eq_Some_conv)
    from step(1) [OF this] show ?thesis .
  qed
qed

text \<open>Termination of the scan on a relation with well-formed overflow links.\<close>

lemma scanPage_progress:
  "scanPage q = (q', res) \<Longrightarrow>
     curpage q' = curpage q \<and> nTupleScanned q \<le> nTupleScanned q'
     \<and> (res \<noteq> None \<longrightarrow> nTupleScanned q < nTupleScanned q'
           \<and> nTupleScanned q' \<le> pageNTuples (curpage q))"
proof (induction q rule: scanPage.induct)
  case (1 q)
  show ?case
  proof (cases "nTupleScanned q < pageNTuples (curpage q)")
    case False
    with 1(2) show ?thesis by (simp add: scanPage.simps [of q])
  next
    case True
    show ?thesis
    proof (cases "tupleMatch (rel q) (query q) (pageData (curpage q) ! nTupleScanned q)")
      case m: True
      with True 1(2) show ?thesis by (auto simp: scanPage.simps [of q])
    next
      case m: False
      with True 1(2) have "scanPage (q\<lparr>nTupleScanned := nTupleScanned q + 1\<rparr>) = (q', res)"
        by (simp add: scanPage.simps [of q])
      from 1(1) [OF True m this] show ?thesis by auto
    qed
  qed
qed

lemma scanOvflowPages_total:
  assumes ok: "linksOK r"
  shows "rel q = r \<Longrightarrow> linkOKp r (curpage q) \<Longrightarrow>
    \<exists>q' res. scanOvflowPages q = Some (q', res) \<and> linkOKp r (curpage q')
      \<and> (q' = q \<and> res = None \<or> linkMeasure r (curpage q') < linkMeasure r (curpage q))"
proof (induction "linkMeasure r (curpage q)" arbitrary: q rule: less_induct)
  case less
  show ?case
  proof (cases "pageOvflow (curpage q) = NO_PAGE")
    case True
    then have "scanOvflowPages q = Some (q, None)" by (simp add: scanOvflowPages.simps [of q])
    with less.prems show ?thesis by simp
  next
    case False
    let ?l = "pageOvflow (curpage q)"
    let ?pg = "ovflow r ! unat ?l"
    from False less.prems(2) have lt: "unat ?l < length (ovflow r)" by (simp add: linkOKp_def)
    with ok have lk: "pageOvflow ?pg = NO_PAGE
        \<or> (unat ?l < unat (pageOvflow ?pg) \<and> unat (pageOvflow ?pg) < length (ovflow r))"
      unfolding linksOK_def by blast
    then have okp: "linkOKp r ?pg" by (auto simp: linkOKp_def)
    from lk lt False have dec: "linkMeasure r ?pg < linkMeasure r (curpage q)"
      by (auto simp: linkMeasure_def)
    obtain q1 r1 where sp: "scanPage (q\<lparr>curpage := ?pg, nTupleScanned := 0\<rparr>) = (q1, r1)"
      by (cases "scanPage (q\<lparr>curpage := ?pg, nTupleScanned := 0\<rparr>)")
    from scanPage_progress [OF sp] have c1: "curpage q1 = ?pg" by simp
    from scanPage_sameBucket [OF sp] less.prems(1) have r1: "rel q1 = r"
      by (simp add: sameBucket_def sameQuery_def)
    have unf: "scanOvflowPages q =
        (case r1 of Some t \<Rightarrow> Some (q1, Some t) | None \<Rightarrow> scanOvflowPages q1)"
      using False lt less.prems(1) sp
      by (simp add: scanOvflowPages.simps [of q] getPage_def split: option.splits)
    show ?thesis
    proof (cases r1)
      case (Some t)
      with unf c1 okp dec show ?thesis by simp
    next
      case None
      from dec c1 have "linkMeasure r (curpage q1) < linkMeasure r (curpage q)" by simp
      from less.hyps [OF this r1] okp c1 obtain q' res where
        "scanOvflowPages q1 = Some (q', res)" "linkOKp r (curpage q')"
        "q' = q1 \<and> res = None \<or> linkMeasure r (curpage q') < linkMeasure r (curpage q1)"
        by auto
      with unf None dec c1 show ?thesis by auto
    qed
  qed
qed

lemma nextBucket_curpage:
  "nextBucket q = Some q' \<Longrightarrow> curpage q' = curpage q \<or> curpage q' \<in> set (data (rel q))"
  by (auto simp: nextBucket_def Let_def bind_eq_Some_conv getPage_def
      split: if_splits option.splits)

lemma nextBucket_total:
  assumes ok: "linksOK r" and ci: "countInv r" and s: "unat (sp r) < 2 ^ unat (depth r)"
    and inv: "queryInv r q" and ne: "bitSeq q \<noteq> bitSeqMax q"
  shows "\<exists>q3. nextBucket q = Some q3 \<and> queryInv r q3
    \<and> unat (bitSeq q3) = unat (bitSeq q) + 1 \<and> bitSeqMax q3 = bitSeqMax q
    \<and> unat (bitSeq q3) \<le> unat (bitSeqMax q)"
proof -
  from inv have r: "rel q = r" and fc: "fetchCount q" and st: "nstars q \<le> length (starBits q)"
    and lk: "linkOKp r (curpage q)" by (simp_all add: queryInv_def)
  from fc have le: "bitSeq q \<le> bitSeqMax q" and m: "bitSeqMax q = mask (nstars q)"
    unfolding fetchCount_def by blast+
  have n0: "nstars q \<noteq> 0"
  proof
    assume "nstars q = 0"
    with m le have "bitSeq q = bitSeqMax q" by simp
    with ne show False by simp
  qed
  from ci have np: "unat (npages r) = 2 ^ unat (depth r) + unat (sp r)"
    and ld: "length (data r) = unat (npages r)" by (simp_all add: countInv_def)
  let ?h = "formUnknown (nstars q) (starBits q) (bitSeq q + 1) OR known q"
  have "\<exists>q3. nextBucket q = Some q3"
  proof (cases "nextPageId r (starBits q ! (nstars q - 1)) ?h")
    case None
    with n0 st r show ?thesis by (simp add: nextBucket_def Let_def)
  next
    case (Some p)
    from nextPageId_bound [OF s np Some] ld have "unat p < length (data r)"
      by (simp add: word_less_nat_alt)
    with Some n0 st r show ?thesis by (simp add: nextBucket_def Let_def getPage_def)
  qed
  then obtain q3 where nb: "nextBucket q = Some q3" by blast
  from nextBucket_fetchCount [OF fc ne nb] have fc3: "fetchCount q3" .
  from nextBucket_sameQuery [OF nb] r st have r3: "rel q3 = r"
    "nstars q3 \<le> length (starBits q3)" "bitSeqMax q3 = bitSeqMax q"
    by (simp_all add: sameQuery_def)
  from nextBucket_curpage [OF nb] r ok lk have lk3: "linkOKp r (curpage q3)"
    by (auto simp: linksOK_def)
  from le ne have lt: "bitSeq q < bitSeqMax q" by (simp add: less_le)
  then have "unat (bitSeq q) < 4294967295"
    using unat_max [of "bitSeqMax q"] by (simp add: word_less_nat_alt)
  then have u: "unat (bitSeq q + 1) = unat (bitSeq q) + 1" by (rule unat_succ)
  from nextBucket_fetched [OF nb] have "bitSeq q3 = bitSeq q + 1" by blast
  with u have b3: "unat (bitSeq q3) = unat (bitSeq q) + 1" by simp
  from lt have "unat (bitSeq q) < unat (bitSeqMax q)" by (simp add: word_less_nat_alt)
  with b3 have "unat (bitSeq q3) \<le> unat (bitSeqMax q)" by simp
  with nb fc3 r3 lk3 b3 show ?thesis by (simp add: queryInv_def)
qed

lemma queryInv_sameBucket:
  assumes "queryInv r x" and "sameBucket x y" and "linkOKp r (curpage y)"
  shows "queryInv r y"
proof -
  from assms(1) have "fetchCount x" by (simp add: queryInv_def)
  with assms(2) have "fetchCount y"
    unfolding fetchCount_def sameBucket_def sameQuery_def by metis
  with assms show ?thesis by (simp add: queryInv_def sameBucket_def sameQuery_def)
qed

lemma getNextTuple_total:
  assumes ok: "linksOK r" and ci: "countInv r" and s: "unat (sp r) < 2 ^ unat (depth r)"
  shows "queryInv r q \<Longrightarrow>
    \<exists>q' res. getNextTuple q = Some (q', res) \<and> queryInv r q'
      \<and> (res \<noteq> None \<longrightarrow> progLess q' q)"
proof (induction "unat (bitSeqMax q) - unat (bitSeq q)" arbitrary: q rule: less_induct)
  case less
  from less.prems have r: "rel q = r" and lk: "linkOKp r (curpage q)"
    by (simp_all add: queryInv_def)
  obtain q1 r1 where sp: "scanPage q = (q1, r1)" by (cases "scanPage q")
  note sb1 = scanPage_sameBucket [OF sp]
  note pr1 = scanPage_progress [OF sp]
  from pr1 lk have "linkOKp r (curpage q1)" by simp
  with less.prems sb1 have inv1: "queryInv r q1" by (rule queryInv_sameBucket)
  from sb1 have same1: "bitSeq q1 = bitSeq q" "bitSeqMax q1 = bitSeqMax q" "rel q1 = rel q"
    by (simp_all add: sameBucket_def sameQuery_def)
  show ?case
  proof (cases r1)
    case (Some t)
    with sp have g: "getNextTuple q = Some (q1, Some t)"
      by (simp add: getNextTuple.simps [of q])
    from pr1 Some same1 have "progLess q1 q"
      by (auto simp: progLess_def progress_def)
    with g inv1 show ?thesis by simp
  next
    case None
    from inv1 have "rel q1 = r" "linkOKp r (curpage q1)" by (simp_all add: queryInv_def)
    from scanOvflowPages_total [OF ok this] obtain q2 r2 where
      so: "scanOvflowPages q1 = Some (q2, r2)" and lk2: "linkOKp r (curpage q2)"
      and mv: "q2 = q1 \<and> r2 = None
          \<or> linkMeasure r (curpage q2) < linkMeasure r (curpage q1)" by blast
    from scanOvflowPages_sound [OF so] have sb2: "sameBucket q1 q2" by blast
    from inv1 sb2 lk2 have inv2: "queryInv r q2" by (rule queryInv_sameBucket)
    from sb2 same1 have same2: "bitSeq q2 = bitSeq q" "bitSeqMax q2 = bitSeqMax q"
      "rel q2 = rel q" by (simp_all add: sameBucket_def sameQuery_def)
    show ?thesis
    proof (cases r2)
      case (Some t)
      with sp None so have g: "getNextTuple q = Some (q2, Some t)"
        by (simp add: getNextTuple.simps [of q])
      from mv Some pr1 have "linkMeasure r (curpage q2) < linkMeasure r (curpage q)" by auto
      with same2 r have "progLess q2 q" by (simp add: progLess_def progress_def)
      with g inv2 show ?thesis by simp
    next
      case n2: None
      show ?thesis
      proof (cases "bitSeq q2 = bitSeqMax q2")
        case True
        with sp None so n2 have "getNextTuple q = Some (q2, None)"
          by (simp add: getNextTuple.simps [of q])
        with inv2 show ?thesis by simp
      next
        case False
        from nextBucket_total [OF ok ci s inv2 False] obtain q3 where
          nb: "nextBucket q2 = Some q3" and inv3: "queryInv r q3"
          and b3: "unat (bitSeq q3) = unat (bitSeq q2) + 1" "bitSeqMax q3 = bitSeqMax q2"
            "unat (bitSeq q3) \<le> unat (bitSeqMax q2)" by blast
        from b3 same2 have dec: "unat (bitSeqMax q3) - unat (bitSeq q3)
            < unat (bitSeqMax q) - unat (bitSeq q)" by simp
        from less.hyps [OF dec inv3] obtain q' res where
          g3: "getNextTuple q3 = Some (q', res)" and inv': "queryInv r q'"
          and pl: "res \<noteq> None \<longrightarrow> progLess q' q3" by blast
        from sp None so n2 False nb g3 have g: "getNextTuple q = Some (q', res)"
          by (simp add: getNextTuple.simps [of q])
        have "progLess q' q" if "res \<noteq> None"
        proof -
          from pl that have "progLess q' q3" by simp
          then have "fst (progress q') \<le> fst (progress q3)"
            by (auto simp: progLess_def progress_def)
          with dec show ?thesis by (auto simp: progLess_def progress_def)
        qed
        with g inv' show ?thesis by blast
      qed
    qed
  qed
qed

lemma wf_progLess: "wf {(q', q). progLess q' q}"
proof -
  have "{(q', q). progLess q' q}
      = inv_image (less_than <*lex*> less_than <*lex*> less_than) progress"
    by (auto simp: progLess_def inv_image_def)
  then show ?thesis by (simp add: wf_lex_prod)
qed

lemma runQuery_total:
  assumes ok: "linksOK r" and ci: "countInv r" and s: "unat (sp r) < 2 ^ unat (depth r)"
  shows "queryInv r q \<Longrightarrow> \<exists>ts q'. runQuery q = Some (ts, q')"
proof (induction q rule: wf_induct_rule [OF wf_progLess])
  case (1 q)
  from getNextTuple_total [OF ok ci s 1(2)] obtain q1 res where
    g: "getNextTuple q = Some (q1, res)" and inv1: "queryInv r q1"
    and pl: "res \<noteq> None \<longrightarrow> progLess q1 q" by blast
  show ?case
  proof (cases res)
    case None
    with g show ?thesis by (simp add: runQuery.simps [of q])
  next
    case (Some t)
    with pl have "(q1, q) \<in> {(q', q). progLess q' q}" by simp
    from 1(1) [OF this inv1] obtain ts q' where "runQuery q1 = Some (ts, q')" by blast
    with g Some show ?thesis by (simp add: runQuery.simps [of q])
  qed
qed

lemma startQuery_queryInv:
  assumes "linksOK r" and "startQuery hash_any r pat = Some q"
  shows "queryInv r q"
proof -
  from assms(2) have fc: "fetchCount q" by (rule startQuery_fetchCount)
  from assms(2) have "rel q = r \<and> nstars q = length (starBits q) \<and> curpage q \<in> set (data r)"
    by (rule startQuery_cases) (auto simp: getPage_Some)
  with fc assms(1) show ?thesis by (auto simp: queryInv_def linksOK_def)
qed

lemma visited_star_at_depth:
  "stars ! (n - 1) = unat (depth r) \<Longrightarrow>
   visited r k n stars (Suc b) =
     visited r k n stars b @
       (if getLower (formUnknown n stars (word_of_nat (Suc b)) OR k) (unat (depth r) + 1) < npages r
        then [getLower (formUnknown n stars (word_of_nat (Suc b)) OR k) (unat (depth r) + 1)]
        else [])"
  by (simp add: nextPageId_def)

lemma ex_run_0:
  "runQuery exQ0 =
     Some ([''dddd,yy'', ''a,yy'', ''ccc,yy'', ''bb,x'', ''a,x'', ''bb,yy''], exQ7)"
  unfolding exQ0_def exQ7_def exQR_def
  apply (subst runQuery.simps, simp add: NO_PAGE_def query_eval_defs)
  apply (subst runQuery.simps, simp add: NO_PAGE_def query_eval_defs)
  apply (subst runQuery.simps, simp add: NO_PAGE_def query_eval_defs)
  apply (subst runQuery.simps, simp add: NO_PAGE_def query_eval_defs)
  apply (subst runQuery.simps, simp add: NO_PAGE_def query_eval_defs)
  apply (subst runQuery.simps, simp add: NO_PAGE_def query_eval_defs)
  apply (subst runQuery.simps, simp add: NO_PAGE_def query_eval_defs)
  done

lemma nextBucket_star_at_depth:
  assumes "nextBucket x = Some y"
    and "starBits x ! (nstars x - 1) = unat (depth (rel x))"
  shows "if getLower (unknown y OR known y) (unat (depth (rel x)) + 1) < npages (rel x)
         then fetched y = fetched x @ [getLower (unknown y OR known y) (unat (depth (rel x)) + 1)]
         else fetched y = fetched x \<and> curpage y = curpage x"
  using assms
  by (auto simp: nextBucket_def nextPageId_def Let_def bind_eq_Some_conv split: if_splits)

text \<open>
  C5 (wildcard enumeration). \<^verbatim>\<open>startQuery\<close> sets \<open>bitSeq\<close> to 0 and \<open>bitSeqMax\<close> to
  \<open>2^nstars - 1\<close>, and after any number of calls of \<^verbatim>\<open>getNextTuple\<close> the counter is at
  most \<open>bitSeqMax\<close> and the log of fetches is exactly the list \<open>visited\<close> for the current
  value of \<open>bitSeq\<close>: one value after the other from 0, each with its page if it fetches
  one. So there are at most \<open>bitSeq + 1 \<le> 2^nstars\<close> fetches (8 when \<open>nstars = 3\<close>).
  When the last star is at position \<open>depth\<close>, the move to the next bucket takes the low
  \<open>depth + 1\<close> bits of \<open>known | unknown\<close> and fetches that page iff it is below
  \<open>npages\<close>; otherwise it fetches nothing and keeps the current page; the list
  \<open>visited\<close> grows accordingly. A call returns no tuple only when \<open>bitSeq\<close> has reached
  \<open>bitSeqMax\<close>, so a scan that is run until it is exhausted ends at \<open>2^nstars - 1\<close> with
  the fetches of all values; and on a relation with well-formed overflow links,
  \<open>npages = 2^d + sp\<close> pages and \<open>sp < 2^d\<close>, the scan is exhausted after finitely many
  calls.
\<close>

theorem wildcard_enumeration:
  assumes "startQuery hash_any r pat = Some q0" and "callsOf n q0 = Some q"
  shows "bitSeq q0 = 0 \<and> bitSeqMax q = 2 ^ nstars q0 - 1 \<and> bitSeq q \<le> bitSeqMax q
         \<and> length (fetched q) \<le> unat (bitSeq q) + 1
         \<and> length (fetched q) \<le> 2 ^ nstars q0
         \<and> (nstars q0 = 3 \<longrightarrow> length (fetched q) \<le> 8)
         \<and> (\<forall>x y. nextBucket x = Some y
                \<and> starBits x ! (nstars x - 1) = unat (depth (rel x))
              \<longrightarrow> (if getLower (unknown y OR known y) (unat (depth (rel x)) + 1) < npages (rel x)
                   then fetched y =
                     fetched x @ [getLower (unknown y OR known y) (unat (depth (rel x)) + 1)]
                   else fetched y = fetched x \<and> curpage y = curpage x))
         \<and> fetched q = visited r (known q0) (nstars q0) (starBits q0) (unat (bitSeq q))
         \<and> (\<forall>b. starBits q0 ! (nstars q0 - 1) = unat (depth r) \<longrightarrow>
               visited r (known q0) (nstars q0) (starBits q0) (Suc b) =
                 visited r (known q0) (nstars q0) (starBits q0) b @
                   (if getLower (formUnknown (nstars q0) (starBits q0) (word_of_nat (Suc b))
                                   OR known q0) (unat (depth r) + 1) < npages r
                    then [getLower (formUnknown (nstars q0) (starBits q0) (word_of_nat (Suc b))
                                      OR known q0) (unat (depth r) + 1)]
                    else []))
         \<and> (\<forall>x y. getNextTuple x = Some (y, None) \<longrightarrow> bitSeq y = bitSeqMax y)
         \<and> (\<forall>ts qe. runQuery q0 = Some (ts, qe) \<longrightarrow>
               bitSeq qe = 2 ^ nstars q0 - 1
               \<and> fetched qe = visited r (known q0) (nstars q0) (starBits q0) (unat (bitSeq qe)))
         \<and> (linksOK r \<and> countInv r \<and> unat (sp r) < 2 ^ unat (depth r) \<longrightarrow>
               (\<exists>ts qe. runQuery q0 = Some (ts, qe)))"
proof -
  have f0: "fetchTrace q0" using assms(1) by (rule startQuery_fetchTrace)
  have b0: "bitSeq q0 = 0" using assms(1) by (rule startQuery_cases) simp
  have r0: "rel q0 = r" using assms(1) by (rule startQuery_cases) simp
  let ?I = "\<lambda>x. fetchTrace x \<and> sameQuery q0 x"
  have i0: "?I q0" using f0 by (simp add: sameQuery_def)
  have step: "?I y" if "?I x" "getNextTuple x = Some (y, res)" for x y res
    using that getNextTuple_fetchTrace [OF that(2)] getNextTuple_sameQuery [OF that(2)]
    by (auto simp: sameQuery_def)
  have "?I q" using step assms(2) i0 by (rule callsOf_invariant [where I = ?I])
  then have ft: "fetchTrace q" and sq: "sameQuery q0 q" by blast+
  from ft have f: "fetchCount q" by (simp add: fetchTrace_def)
  from sq have n: "nstars q = nstars q0" by (simp add: sameQuery_def)
  from f have le: "bitSeq q \<le> bitSeqMax q" and m: "bitSeqMax q = mask (nstars q)"
    and l: "length (fetched q) \<le> unat (bitSeq q) + 1"
    unfolding fetchCount_def by blast+
  from fetchCount_bound [OF f] n have b: "length (fetched q) \<le> 2 ^ nstars q0" by simp
  then have c8: "nstars q0 = 3 \<longrightarrow> length (fetched q) \<le> 8" by auto
  have mm: "bitSeqMax q = 2 ^ nstars q0 - 1" using m n by (simp add: mask_eq_exp_minus_1)
  have star: "\<forall>x y. nextBucket x = Some y
                \<and> starBits x ! (nstars x - 1) = unat (depth (rel x))
              \<longrightarrow> (if getLower (unknown y OR known y) (unat (depth (rel x)) + 1) < npages (rel x)
                   then fetched y =
                     fetched x @ [getLower (unknown y OR known y) (unat (depth (rel x)) + 1)]
                   else fetched y = fetched x \<and> curpage y = curpage x)"
    using nextBucket_star_at_depth by blast
  have tr: "fetched q = visited r (known q0) (nstars q0) (starBits q0) (unat (bitSeq q))"
    using ft sq r0 by (simp add: fetchTrace_def sameQuery_def)
  have vs: "\<forall>b. starBits q0 ! (nstars q0 - 1) = unat (depth r) \<longrightarrow>
               visited r (known q0) (nstars q0) (starBits q0) (Suc b) =
                 visited r (known q0) (nstars q0) (starBits q0) b @
                   (if getLower (formUnknown (nstars q0) (starBits q0) (word_of_nat (Suc b))
                                   OR known q0) (unat (depth r) + 1) < npages r
                    then [getLower (formUnknown (nstars q0) (starBits q0) (word_of_nat (Suc b))
                                      OR known q0) (unat (depth r) + 1)]
                    else [])"
    using visited_star_at_depth by blast
  have ex: "\<forall>x y. getNextTuple x = Some (y, None) \<longrightarrow> bitSeq y = bitSeqMax y"
    using getNextTuple_exhausted by blast
  have run: "\<forall>ts qe. runQuery q0 = Some (ts, qe) \<longrightarrow>
               bitSeq qe = 2 ^ nstars q0 - 1
               \<and> fetched qe = visited r (known q0) (nstars q0) (starBits q0) (unat (bitSeq qe))"
  proof (intro allI impI)
    fix ts qe
    assume rq: "runQuery q0 = Some (ts, qe)"
    have "?I q0 \<longrightarrow> ?I qe" using rq step by (rule runQuery_invariant [where I = ?I])
    with i0 have fte: "fetchTrace qe" and sqe: "sameQuery q0 qe" by blast+
    from fte have "bitSeqMax qe = mask (nstars qe)" by (simp add: fetchTrace_def fetchCount_def)
    with sqe runQuery_exhausted [OF rq] have "bitSeq qe = 2 ^ nstars q0 - 1"
      by (simp add: sameQuery_def mask_eq_exp_minus_1)
    moreover from fte sqe r0
    have "fetched qe = visited r (known q0) (nstars q0) (starBits q0) (unat (bitSeq qe))"
      by (simp add: fetchTrace_def sameQuery_def)
    ultimately show "bitSeq qe = 2 ^ nstars q0 - 1
        \<and> fetched qe = visited r (known q0) (nstars q0) (starBits q0) (unat (bitSeq qe))" ..
  qed
  have tot: "linksOK r \<and> countInv r \<and> unat (sp r) < 2 ^ unat (depth r) \<longrightarrow>
               (\<exists>ts qe. runQuery q0 = Some (ts, qe))"
  proof
    assume a: "linksOK r \<and> countInv r \<and> unat (sp r) < 2 ^ unat (depth r)"
    then have "queryInv r q0" using assms(1) startQuery_queryInv by blast
    with a show "\<exists>ts qe. runQuery q0 = Some (ts, qe)" using runQuery_total by blast
  qed
  show ?thesis
    by (intro conjI) (fact b0 mm le l b c8 star tr vs ex run tot)+
qed

theorem wildcard_enumeration_witness:
  "startQuery exHash exQR ''?,?'' = Some exQ0 \<and> callsOf 7 exQ0 = Some exQ7
   \<and> nstars exQ0 = 3 \<and> bitSeq exQ7 = 2 ^ nstars exQ0 - 1
   \<and> length (fetched exQ7) = 5 \<and> length (fetched exQ7) \<le> 2 ^ nstars exQ0
   \<and> fetched exQ7 = visited exQR (known exQ0) (nstars exQ0) (starBits exQ0) (unat (bitSeq exQ7))
   \<and> fetched exQ7 = [0, 1, 2, 3, 4]
   \<and> linksOK exQR \<and> countInv exQR \<and> unat (sp exQR) < 2 ^ unat (depth exQR)
   \<and> runQuery exQ0 =
       Some ([''dddd,yy'', ''a,yy'', ''ccc,yy'', ''bb,x'', ''a,x'', ''bb,yy''], exQ7)"
proof -
  have a: "nstars exQ0 = 3" "bitSeq exQ7 = 2 ^ nstars exQ0 - 1" "length (fetched exQ7) = 5"
    "fetched exQ7 = [0, 1, 2, 3, 4]"
    by (simp_all add: exQ0_def exQ7_def)
  have w: "linksOK exQR" "countInv exQR" "unat (sp exQR) < 2 ^ unat (depth exQR)"
    by (simp_all add: linksOK_def linkOKp_def countInv_def exQR_def NO_PAGE_def)
  from wildcard_enumeration [OF ex_start_0 ex_calls_0] have
    "length (fetched exQ7) \<le> 2 ^ nstars exQ0"
    "fetched exQ7 = visited exQR (known exQ0) (nstars exQ0) (starBits exQ0) (unat (bitSeq exQ7))"
    by blast+
  with a w ex_start_0 ex_calls_0 ex_run_0 show ?thesis by blast
qed

text \<open>
  C10 (fetch-bound safety). Under the invariants \<open>sp < 2^d\<close> and \<open>npages = 2^d + sp\<close>
  every page id that the query engine computes for the primary data file is below
  \<open>npages\<close>: the bucket of the normal rule, the id of the move to the next bucket, and
  so every id that \<^verbatim>\<open>startQuery\<close> and any number of calls of \<^verbatim>\<open>getNextTuple\<close> have
  passed to \<^verbatim>\<open>getPage\<close>; with \<open>npages\<close> pages in the file, no fetch is past its end.
\<close>

theorem fetch_bound:
  assumes "unat (sp r) < 2 ^ unat (depth r)"
    and "unat (npages r) = 2 ^ unat (depth r) + unat (sp r)"
    and "startQuery hash_any r pat = Some q0" and "callsOf n q0 = Some q"
  shows "(\<forall>h. bucketOf r h < npages r)
         \<and> (\<forall>l h p. nextPageId r l h = Some p \<longrightarrow> p < npages r)
         \<and> (\<forall>p \<in> set (fetched q). p < npages r)
         \<and> (length (data r) = unat (npages r)
              \<longrightarrow> (\<forall>p \<in> set (fetched q). getPage (data r) p \<noteq> None))"
proof -
  note b = bucketOf_bound [OF assms(1,2)]
  note nb = nextPageId_bound [OF assms(1,2)]
  let ?I = "\<lambda>x. rel x = r \<and> (\<forall>p \<in> set (fetched x). p < npages r)"
  have i0: "?I q0" using assms(3) by (rule startQuery_cases) (simp add: b)
  have step: "?I y" if "?I x" "getNextTuple x = Some (y, res)" for x y res
  proof -
    have "?I x \<longrightarrow> ?I y"
    proof (rule getNextTuple_invariant [OF that(2)])
      show "?I v" if "?I u" "sameBucket u v" for u v
        using that by (simp add: sameBucket_def sameQuery_def)
      show "?I v" if "?I u" "bitSeq u \<noteq> bitSeqMax u" "nextBucket u = Some v" for u v
        using that(1) nextBucket_fetched [OF that(3)] nextBucket_sameQuery [OF that(3)] nb
        by (auto simp: sameQuery_def split: option.splits)
    qed
    with that(1) show ?thesis by blast
  qed
  have "?I q" using step assms(4) i0 by (rule callsOf_invariant [where I = ?I])
  then have f: "\<forall>p \<in> set (fetched q). p < npages r" by simp
  then have "length (data r) = unat (npages r)
      \<longrightarrow> (\<forall>p \<in> set (fetched q). getPage (data r) p \<noteq> None)"
    by (auto simp: getPage_def word_less_nat_alt)
  with b nb f show ?thesis by blast
qed

theorem fetch_bound_witness:
  "unat (sp exQR) < 2 ^ unat (depth exQR)
   \<and> unat (npages exQR) = 2 ^ unat (depth exQR) + unat (sp exQR)
   \<and> startQuery exHash exQR ''?,?'' = Some exQ0 \<and> callsOf 7 exQ0 = Some exQ7
   \<and> fetched exQ7 = [0, 1, 2, 3, 4]
   \<and> list_all (\<lambda>p. p < npages exQR) (fetched exQ7)"
proof -
  have h1: "unat (sp exQR) < 2 ^ unat (depth exQR)" by (simp add: exQR_def)
  have h2: "unat (npages exQR) = 2 ^ unat (depth exQR) + unat (sp exQR)" by (simp add: exQR_def)
  have f: "fetched exQ7 = [0, 1, 2, 3, 4]" by (simp add: exQ7_def)
  from fetch_bound [OF h1 h2 ex_start_0 ex_calls_0]
  have "\<forall>p \<in> set (fetched exQ7). p < npages exQR" by blast
  then have "list_all (\<lambda>p. p < npages exQR) (fetched exQ7)" by (simp only: list_all_iff)
  with h1 h2 ex_start_0 ex_calls_0 f show ?thesis by blast
qed

subsection \<open>Failed insertions\<close>










end
